theory Spec2Isabelle
  imports Complex_Main
begin

section \<open>ChatInterface: the dual-mode conversational session manager\<close>

text \<open>
  The component keeps seven \<^verbatim>\<open>useState\<close> slots.  An event handler reads the slots of
  the latest render; the two derived bindings \<^verbatim>\<open>messages/setMessages\<close> and
  \<^verbatim>\<open>sessionId/setSessionId\<close> are selected by \<^verbatim>\<open>activeMode\<close> at that render.  A call of
  \<^verbatim>\<open>handleSendMessage\<close> that is suspended at its \<^verbatim>\<open>await\<close> keeps the bindings it was
  started with; the model stores them as an in-flight call.  Time (\<^verbatim>\<open>Date.now()\<close> and
  \<^verbatim>\<open>new Date()\<close>, in milliseconds) is a parameter of every handler.
\<close>

datatype MessageType = User | Assistant | System

record Source =
  document :: string
  chunk :: string
  relevanceScore :: real
  isInternal :: "bool option"

record ChatMessage =
  id_msg :: string
  type_msg :: MessageType
  content :: string
  timestamp :: nat
  sources :: "Source list option"
  isTyping :: "bool option"

datatype ChatMode = Customer | Internal

text \<open>The bindings captured by a suspended \<^verbatim>\<open>handleSendMessage\<close>.\<close>

record InFlight =
  call_query :: string
  call_activeMode :: ChatMode
  call_sessionId :: "string option"

record ChatInterface =
  activeMode :: ChatMode
  customerMessages :: "ChatMessage list"
  internalMessages :: "ChatMessage list"
  inputValue :: string
  isLoading :: bool
  customerSessionId :: "string option"
  internalSessionId :: "string option"
  inflight :: "InFlight list"

subsection \<open>Strings of the JavaScript runtime\<close>

text \<open>\<^verbatim>\<open>Number.prototype.toString\<close> on a non-negative integer: its decimal digits.\<close>

definition digit :: "nat \<Rightarrow> char" where
  "digit d = ''0123456789'' ! d"

fun toString :: "nat \<Rightarrow> string" where
  "toString n = (if n < 10 then [digit n] else toString (n div 10) @ [digit (n mod 10)])"

text \<open>
  \<^verbatim>\<open>String.prototype.trim\<close> strips white space at both ends.  Characters are code units
  below 256, where the white space is TAB, LF, VT, FF, CR, SPACE and NBSP.
\<close>

definition isWhiteSpace :: "char \<Rightarrow> bool" where
  "isWhiteSpace c = (of_char c \<in> {9, 10, 11, 12, 13, 32, 160 :: nat})"

definition trim :: "string \<Rightarrow> string" where
  "trim s = rev (dropWhile isWhiteSpace (rev (dropWhile isWhiteSpace s)))"

text \<open>Truthiness of a \<^verbatim>\<open>string | null | undefined\<close>: absent and the empty string are falsy.\<close>

definition truthy :: "string option \<Rightarrow> bool" where
  "truthy v = (case v of None \<Rightarrow> False | Some t \<Rightarrow> t \<noteq> [])"

subsection \<open>Initial state and derived bindings\<close>

definition initialCustomerMessage :: "nat \<Rightarrow> ChatMessage" where
  "initialCustomerMessage t0 = \<lparr> id_msg = ''1'', type_msg = System,
     content = ''Hello! I'' @ [CHR 0x27] @ ''m your virtual education consultant. I can help you find information about our affiliated universities, courses, and programs. How can I assist you today?'',
     timestamp = t0, sources = None, isTyping = None \<rparr>"

definition initialInternalMessage :: "nat \<Rightarrow> ChatMessage" where
  "initialInternalMessage t0 = \<lparr> id_msg = ''1'', type_msg = System,
     content = ''Welcome to internal mode! I have access to all company documents including sales reports, marketing data, and other related information. What would you like to know?'',
     timestamp = t0, sources = None, isTyping = None \<rparr>"

definition initialChat :: "nat \<Rightarrow> ChatInterface" where
  "initialChat t0 = \<lparr> activeMode = Customer,
     customerMessages = [initialCustomerMessage t0],
     internalMessages = [initialInternalMessage t0],
     inputValue = [], isLoading = False,
     customerSessionId = None, internalSessionId = None,
     inflight = [] \<rparr>"

text \<open>The timeline and the token slot of a given mode.\<close>

definition messagesOf :: "ChatMode \<Rightarrow> ChatInterface \<Rightarrow> ChatMessage list" where
  "messagesOf m s = (if m = Customer then customerMessages s else internalMessages s)"

definition sessionIdOf :: "ChatMode \<Rightarrow> ChatInterface \<Rightarrow> string option" where
  "sessionIdOf m s = (if m = Customer then customerSessionId s else internalSessionId s)"

text \<open>
  \<^verbatim>\<open>setMessages\<close> as selected under mode \<open>m\<close>, called with an updater function (React
  applies it to the latest value of the slot); \<^verbatim>\<open>setSessionId\<close> likewise, with a value.
\<close>

definition setMessages :: "ChatMode \<Rightarrow> (ChatMessage list \<Rightarrow> ChatMessage list) \<Rightarrow> ChatInterface \<Rightarrow> ChatInterface" where
  "setMessages m upd s =
     (if m = Customer then s\<lparr> customerMessages := upd (customerMessages s) \<rparr>
      else s\<lparr> internalMessages := upd (internalMessages s) \<rparr>)"

definition setSessionId :: "ChatMode \<Rightarrow> string option \<Rightarrow> ChatInterface \<Rightarrow> ChatInterface" where
  "setSessionId m v s =
     (if m = Customer then s\<lparr> customerSessionId := v \<rparr> else s\<lparr> internalSessionId := v \<rparr>)"

definition messages :: "ChatInterface \<Rightarrow> ChatMessage list" where
  "messages s = messagesOf (activeMode s) s"

definition sessionId :: "ChatInterface \<Rightarrow> string option" where
  "sessionId s = sessionIdOf (activeMode s) s"

definition other :: "ChatMode \<Rightarrow> ChatMode" where
  "other m = (if m = Customer then Internal else Customer)"

subsection \<open>The gateway call\<close>

text \<open>
  What the awaited calls of \<^verbatim>\<open>sendMessageToAPI\<close> do: \<^verbatim>\<open>fetch\<close> or \<^verbatim>\<open>response.json()\<close>
  rejects (a transport error, a body that is not JSON), or a response arrives with its
  \<^verbatim>\<open>ok\<close> flag and the fields \<^verbatim>\<open>answer\<close> and \<^verbatim>\<open>session_id\<close> of its JSON body
  (\<open>None\<close> for a \<^verbatim>\<open>session_id\<close> that is missing or null).
\<close>

datatype FetchOutcome = Rejected | Responded bool string "string option"

datatype ApiError = TransportError | RequestFailed

fun sendMessageToAPI :: "FetchOutcome \<Rightarrow> ApiError + (string \<times> string option)" where
  "sendMessageToAPI Rejected = Inl TransportError"
| "sendMessageToAPI (Responded ok answer session_id) =
     (if \<not> ok then Inl RequestFailed else Inr (answer, session_id))"

subsection \<open>Handlers\<close>

definition userMessage :: "nat \<Rightarrow> string \<Rightarrow> ChatMessage" where
  "userMessage now text = \<lparr> id_msg = toString now, type_msg = User, content = text,
     timestamp = now, sources = None, isTyping = None \<rparr>"

definition typingMessage :: "nat \<Rightarrow> ChatMessage" where
  "typingMessage now = \<lparr> id_msg = ''typing'', type_msg = Assistant, content = [],
     timestamp = now, sources = None, isTyping = Some True \<rparr>"

definition assistantMessage :: "nat \<Rightarrow> string \<Rightarrow> ChatMessage" where
  "assistantMessage now answer = \<lparr> id_msg = toString (now + 1), type_msg = Assistant,
     content = answer, timestamp = now, sources = None, isTyping = None \<rparr>"

definition failureNotice :: string where
  "failureNotice = ''Sorry, I encountered an error while processing your request. Please try again or check if the API service is running.''"

definition errorMessage :: "nat \<Rightarrow> ChatMessage" where
  "errorMessage now = assistantMessage now failureNotice"

definition dropTyping :: "ChatMessage list \<Rightarrow> ChatMessage list" where
  "dropTyping prev = filter (\<lambda>m. id_msg m \<noteq> ''typing'') prev"

text \<open>\<^verbatim>\<open>handleSendMessage\<close> up to its \<^verbatim>\<open>await\<close>.\<close>

definition handleSendMessage :: "nat \<Rightarrow> ChatInterface \<Rightarrow> ChatInterface" where
  "handleSendMessage now s =
     (if trim (inputValue s) = [] \<or> isLoading s then s
      else
        let m = activeMode s;
            currentQuery = inputValue s;
            s1 = setMessages m (\<lambda>prev. prev @ [userMessage now (inputValue s)]) s;
            s2 = s1\<lparr> inputValue := [] \<rparr>;
            s3 = s2\<lparr> isLoading := True \<rparr>;
            s4 = setMessages m (\<lambda>prev. prev @ [typingMessage now]) s3
        in s4\<lparr> inflight := inflight s4 @
              [\<lparr> call_query = currentQuery, call_activeMode = m, call_sessionId = sessionId s \<rparr>] \<rparr>)"

text \<open>
  The rest of \<^verbatim>\<open>handleSendMessage\<close>, run when the gateway call of the in-flight call
  number \<open>k\<close> settles at time \<open>now\<close>: the \<^verbatim>\<open>try\<close> body after the \<^verbatim>\<open>await\<close>, the
  \<^verbatim>\<open>catch\<close> and the \<^verbatim>\<open>finally\<close>.  It uses the bindings of the call, not of the
  latest render.
\<close>

definition settle :: "nat \<Rightarrow> FetchOutcome \<Rightarrow> nat \<Rightarrow> ChatInterface \<Rightarrow> ChatInterface" where
  "settle k outcome now s =
     (if k < length (inflight s) then
        let c = inflight s ! k;
            s0 = s\<lparr> inflight := take k (inflight s) @ drop (Suc k) (inflight s) \<rparr>;
            s2 = (case sendMessageToAPI outcome of
                    Inr (answer, session_id) \<Rightarrow>
                      let s1 = (if truthy session_id \<and> session_id \<noteq> call_sessionId c
                                then setSessionId (call_activeMode c) session_id s0 else s0)
                      in setMessages (call_activeMode c)
                           (\<lambda>prev. dropTyping prev @ [assistantMessage now answer]) s1
                  | Inl e \<Rightarrow>
                      setMessages (call_activeMode c)
                        (\<lambda>prev. dropTyping prev @ [errorMessage now]) s0)
        in s2\<lparr> isLoading := False \<rparr>
      else s)"

definition clearChat :: "nat \<Rightarrow> ChatInterface \<Rightarrow> ChatInterface" where
  "clearChat now s =
     (let welcomeMessage = \<lparr> id_msg = toString now, type_msg = System,
            content = (if activeMode s = Customer
                       then ''Chat cleared. How can I help you with our products and services today?''
                       else ''Chat cleared. What internal information would you like to access?''),
            timestamp = now, sources = None, isTyping = None \<rparr>
      in setMessages (activeMode s) (\<lambda>prev. [welcomeMessage]) s)"

definition setActiveMode :: "ChatMode \<Rightarrow> ChatInterface \<Rightarrow> ChatInterface" where
  "setActiveMode m s = s\<lparr> activeMode := m \<rparr>"

definition setInputValue :: "string \<Rightarrow> ChatInterface \<Rightarrow> ChatInterface" where
  "setInputValue v s = s\<lparr> inputValue := v \<rparr>"

text \<open>The events of the component and the states they reach from the mounted one.\<close>

datatype ChatEvent =
    SetInputValue string
  | HandleSendMessage nat
  | Settle nat FetchOutcome nat
  | SetActiveMode ChatMode
  | ClearChat nat

fun chatStep :: "ChatEvent \<Rightarrow> ChatInterface \<Rightarrow> ChatInterface" where
  "chatStep (SetInputValue v) s = setInputValue v s"
| "chatStep (HandleSendMessage now) s = handleSendMessage now s"
| "chatStep (Settle k outcome now) s = settle k outcome now s"
| "chatStep (SetActiveMode m) s = setActiveMode m s"
| "chatStep (ClearChat now) s = clearChat now s"

inductive reachable :: "ChatInterface \<Rightarrow> bool" where
  mounted: "reachable (initialChat t0)"
| after: "reachable s \<Longrightarrow> reachable (chatStep e s)"

definition pendingCount :: "ChatMessage list \<Rightarrow> nat" where
  "pendingCount ms = length (filter (\<lambda>m. isTyping m = Some True) ms)"

subsection \<open>Notions used to state the properties\<close>

text \<open>
  An invariant of the reachable states.  A message carries the identifier \<^verbatim>\<open>'typing'\<close>
  exactly when its \<^verbatim>\<open>isTyping\<close> flag is set; at most one call is in flight, exactly
  when \<^verbatim>\<open>isLoading\<close> is set; the call still holds the token of its mode, and the only
  pending placeholder, if any, is in the timeline of its mode.
\<close>

definition tagged :: "ChatMessage list \<Rightarrow> bool" where
  "tagged ms = list_all (\<lambda>m. (id_msg m = ''typing'') = (isTyping m = Some True)) ms"

definition callOk :: "InFlight \<Rightarrow> ChatInterface \<Rightarrow> bool" where
  "callOk c s \<longleftrightarrow>
     call_sessionId c = sessionIdOf (call_activeMode c) s
     \<and> pendingCount (messagesOf (other (call_activeMode c)) s) = 0
     \<and> pendingCount (messagesOf (call_activeMode c) s) \<le> 1"

definition chatInv :: "ChatInterface \<Rightarrow> bool" where
  "chatInv s \<longleftrightarrow>
     tagged (customerMessages s) \<and> tagged (internalMessages s) \<and>
     (case inflight s of
        [] \<Rightarrow> \<not> isLoading s \<and> pendingCount (customerMessages s) = 0
                \<and> pendingCount (internalMessages s) = 0
      | c # cs \<Rightarrow> cs = [] \<and> isLoading s \<and> callOk c s)"

text \<open>A call started under mode \<open>m\<close> is outstanding.\<close>

definition outstandingIn :: "ChatMode \<Rightarrow> ChatInterface \<Rightarrow> bool" where
  "outstandingIn m s = list_ex (\<lambda>c. call_activeMode c = m) (inflight s)"

text \<open>The final assistant message that \<^verbatim>\<open>handleSendMessage\<close> builds for an outcome.\<close>

definition finalMessage :: "FetchOutcome \<Rightarrow> nat \<Rightarrow> ChatMessage" where
  "finalMessage outcome now =
     (case sendMessageToAPI outcome of
        Inr (answer, session_id) \<Rightarrow> assistantMessage now answer
      | Inl e \<Rightarrow> errorMessage now)"

text \<open>
  A timeline has no orphaned answer when every assistant message directly follows a user
  message (its question).
\<close>

fun paired :: "MessageType option \<Rightarrow> ChatMessage list \<Rightarrow> bool" where
  "paired p [] = True"
| "paired p (m # ms) =
     ((if type_msg m = Assistant then p = Some User else True) \<and> paired (Some (type_msg m)) ms)"

definition orphanFree :: "ChatMessage list \<Rightarrow> bool" where
  "orphanFree ms = paired None ms"

text \<open>
  The token after a successful call according to the specification's wording: overwritten
  with the returned value if and only if one is present and differs from the current one.
\<close>

definition claimedToken :: "string option \<Rightarrow> string option \<Rightarrow> string option" where
  "claimedToken current returned =
     (if returned \<noteq> None \<and> returned \<noteq> current then returned else current)"

text \<open>
  One complete exchange in the active mode: the text is entered, sent at \<open>t1\<close>, and the
  gateway call settles at \<open>t2\<close>.  \<open>roundStates\<close> lists every state passed through.
\<close>

fun sendRound :: "string \<times> nat \<times> FetchOutcome \<times> nat \<Rightarrow> ChatInterface \<Rightarrow> ChatInterface" where
  "sendRound (text, t1, outcome, t2) s =
     settle 0 outcome t2 (handleSendMessage t1 (setInputValue text s))"


text \<open>
  What the user can do while a call is outstanding: enter or pick a text, try to send,
  switch the mode, clear the conversation.  The call itself does not settle meanwhile.
\<close>

fun interim :: "ChatEvent \<Rightarrow> bool" where
  "interim (SetInputValue v) = True"
| "interim (HandleSendMessage now) = True"
| "interim (Settle k outcome now) = False"
| "interim (SetActiveMode m) = True"
| "interim (ClearChat now) = True"

text \<open>Concrete runs from the mounted component.\<close>

definition awaitingFirstAnswer :: ChatInterface where
  "awaitingFirstAnswer =
     fold chatStep [SetInputValue ''What are the admission requirements?'', HandleSendMessage 10]
       (initialChat 0)"

definition busyElsewhere :: ChatInterface where
  "busyElsewhere =
     fold chatStep [SetActiveMode Internal, SetInputValue ''Show me student enrollment statistics'']
       awaitingFirstAnswer"

definition clearedThenAnswered :: ChatInterface where
  "clearedThenAnswered =
     fold chatStep [ClearChat 20, Settle 0 (Responded True ''See the admissions page.'' (Some ''abc'')) 30]
       awaitingFirstAnswer"


definition askingInternally :: ChatInterface where
  "askingInternally =
     fold chatStep [SetActiveMode Internal, SetInputValue ''Show me student enrollment statistics'']
       (initialChat 0)"

definition switchThenClear :: "ChatEvent list" where
  "switchThenClear = [SetActiveMode Customer, HandleSendMessage 15, ClearChat 20]"

section \<open>DocumentUpload: the upload registry and its simulated progress\<close>

text \<open>
  The registry is the \<^verbatim>\<open>files\<close> slot.  \<^verbatim>\<open>simulateFileProcessing\<close> drives a record with
  browser timers; the model keeps the browser's timer table beside the registry.  A
  timer's handle is its position in the table; a cleared interval and a fired timeout
  leave \<open>None\<close> behind.  A timer carries what its closure holds: the identifier of its
  file and, for the upload interval, the local variable \<^verbatim>\<open>progress\<close>.  The value of
  \<^verbatim>\<open>Math.random()\<close> is a parameter of a tick, and so is the identifier that
  \<^verbatim>\<open>handleFileUpload\<close> draws for a new record.  The \<^verbatim>\<open>isDragOver\<close> slot only styles the
  drop area and is left out.
\<close>

subsection \<open>Numbers\<close>

text \<open>
  Progress values are JavaScript numbers: IEEE 754 doubles.  A double is modelled by the
  real number it denotes.  The runtime's addition and multiplication round their results,
  so they are not the operations of the real numbers; the model takes them as a
  parameter: the set of doubles and the two operations on it.  Comparisons of doubles are
  exact, and so are the constants 0, 15, 20 and 100.
\<close>

record Arith =
  isDouble :: "real \<Rightarrow> bool"
  fadd :: "real \<Rightarrow> real \<Rightarrow> real"
  fmul :: "real \<Rightarrow> real \<Rightarrow> real"

text \<open>
  What rounding to nearest guarantees in the range the component computes in, and all that
  the proofs use.  The constants 0 and 100 are doubles.  For a double \<open>r\<close> in \<open>[0, 1)\<close>
  and \<open>c\<close> one of 20 and 15, the rounded product is a double between 0 and \<open>c\<close>
  (rounding is monotone and 0 and \<open>c\<close> are doubles).  For doubles \<open>a\<close> in \<open>[0, 100]\<close>
  and \<open>b\<close> in \<open>[0, 20]\<close> the rounded sum is a double not below \<open>a\<close> (the exact sum is not
  below \<open>a\<close>, and \<open>a\<close> is a double), and adding to 0 is exact.
\<close>

definition ieee :: "Arith \<Rightarrow> bool" where
  "ieee ar \<longleftrightarrow>
     isDouble ar 0 \<and> isDouble ar 100 \<and>
     (\<forall>r. isDouble ar r \<and> 0 \<le> r \<and> r < 1 \<longrightarrow>
        isDouble ar (fmul ar r 20) \<and> 0 \<le> fmul ar r 20 \<and> fmul ar r 20 \<le> 20 \<and>
        isDouble ar (fmul ar r 15) \<and> 0 \<le> fmul ar r 15 \<and> fmul ar r 15 \<le> 15) \<and>
     (\<forall>a b. isDouble ar a \<and> isDouble ar b \<and> 0 \<le> a \<and> a \<le> 100 \<and> 0 \<le> b \<and> b \<le> 20 \<longrightarrow>
        isDouble ar (fadd ar a b) \<and> a \<le> fadd ar a b) \<and>
     (\<forall>b. isDouble ar b \<longrightarrow> fadd ar 0 b = b)"

text \<open>
  The doubles that are multiples of \<open>1/8\<close> of magnitude at most 1024, with the sums and
  products of the real numbers.  Each of these numbers is a double, and on them, in the
  range the component computes in, the runtime's operations return the same values: the
  sum of two of them within 0 and 120 and the product of one of them below 1 with 20 or 15
  are again such numbers, so nothing is rounded.  The concrete runs below compute on
  these numbers.
\<close>

definition eighths :: Arith where
  "eighths = \<lparr> isDouble = (\<lambda>x. 8 * x \<in> \<int> \<and> \<bar>x\<bar> \<le> 1024),
               fadd = (\<lambda>a b. a + b), fmul = (\<lambda>a b. a * b) \<rparr>"

datatype FileStatus = Uploading | Processing | Ready | Error

record UploadedFile =
  id_file :: string
  name :: string
  size_file :: nat
  status :: FileStatus
  progress :: real
  uploadedAt :: nat
  error :: "string option"

datatype Timer =
    UploadInterval string real
  | HandOffTimeout string
  | ProcessingInterval string

fun timerFileId :: "Timer \<Rightarrow> string" where
  "timerFileId (UploadInterval fileId p) = fileId"
| "timerFileId (HandOffTimeout fileId) = fileId"
| "timerFileId (ProcessingInterval fileId) = fileId"

record DocumentUpload =
  files :: "UploadedFile list"
  timers :: "Timer option list"

definition initialUpload :: DocumentUpload where
  "initialUpload = \<lparr> files = [], timers = [] \<rparr>"

subsection \<open>simulateFileProcessing and its timer callbacks\<close>

definition simulateFileProcessing :: "string \<Rightarrow> DocumentUpload \<Rightarrow> DocumentUpload" where
  "simulateFileProcessing fileId s =
     s\<lparr> timers := timers s @ [Some (UploadInterval fileId 0)] \<rparr>"

text \<open>
  A tick of the upload interval with handle \<open>k\<close>, whose closure holds \<open>fileId\<close> and the
  local progress \<open>p\<close>; \<open>r\<close> is the value of \<^verbatim>\<open>Math.random()\<close>.
\<close>

definition uploadTick :: "Arith \<Rightarrow> nat \<Rightarrow> string \<Rightarrow> real \<Rightarrow> real \<Rightarrow> DocumentUpload \<Rightarrow> DocumentUpload" where
  "uploadTick ar k fileId p r s =
     (let p1 = fadd ar p (fmul ar r 20) in
      if p1 \<ge> 100 then
        s\<lparr> files := map (\<lambda>f. if id_file f = fileId
                              then f\<lparr> status := Processing, progress := 0 \<rparr> else f) (files s),
           timers := (timers s)[k := None] @ [Some (HandOffTimeout fileId)] \<rparr>
      else
        s\<lparr> files := map (\<lambda>f. if id_file f = fileId then f\<lparr> progress := p1 \<rparr> else f) (files s),
           timers := (timers s)[k := Some (UploadInterval fileId p1)] \<rparr>)"

text \<open>The timeout of one second fires: the processing interval starts.\<close>

definition handOff :: "nat \<Rightarrow> string \<Rightarrow> DocumentUpload \<Rightarrow> DocumentUpload" where
  "handOff k fileId s =
     s\<lparr> timers := (timers s)[k := None] @ [Some (ProcessingInterval fileId)] \<rparr>"

text \<open>
  The callback that a tick of the processing interval maps over the registry, and the
  condition under which that callback clears the interval.
\<close>

definition processingStep :: "Arith \<Rightarrow> string \<Rightarrow> real \<Rightarrow> UploadedFile \<Rightarrow> UploadedFile" where
  "processingStep ar fileId r f =
     (if id_file f = fileId \<and> status f = Processing then
        (let newProgress = fadd ar (progress f) (fmul ar r 15) in
         if newProgress \<ge> 100 then f\<lparr> status := Ready, progress := 100 \<rparr>
         else f\<lparr> progress := newProgress \<rparr>)
      else f)"

definition processingDone :: "Arith \<Rightarrow> string \<Rightarrow> real \<Rightarrow> UploadedFile \<Rightarrow> bool" where
  "processingDone ar fileId r f \<longleftrightarrow>
     id_file f = fileId \<and> status f = Processing \<and> fadd ar (progress f) (fmul ar r 15) \<ge> 100"

definition processingTick :: "Arith \<Rightarrow> nat \<Rightarrow> string \<Rightarrow> real \<Rightarrow> DocumentUpload \<Rightarrow> DocumentUpload" where
  "processingTick ar k fileId r s =
     s\<lparr> files := map (processingStep ar fileId r) (files s),
        timers := (if list_ex (processingDone ar fileId r) (files s)
                   then (timers s)[k := None] else timers s) \<rparr>"

text \<open>The timer with handle \<open>k\<close> fires; a handle that is not running does nothing.\<close>

definition tick :: "Arith \<Rightarrow> nat \<Rightarrow> real \<Rightarrow> DocumentUpload \<Rightarrow> DocumentUpload" where
  "tick ar k r s =
     (if k < length (timers s) then
        (case timers s ! k of
           None \<Rightarrow> s
         | Some (UploadInterval fileId p) \<Rightarrow> uploadTick ar k fileId p r s
         | Some (HandOffTimeout fileId) \<Rightarrow> handOff k fileId s
         | Some (ProcessingInterval fileId) \<Rightarrow> processingTick ar k fileId r s)
      else s)"

subsection \<open>The registry operations\<close>

text \<open>A file descriptor with the identifier drawn for it: identifier, name, size.\<close>

definition newFile :: "nat \<Rightarrow> string \<times> string \<times> nat \<Rightarrow> UploadedFile" where
  "newFile now d = \<lparr> id_file = fst d, name = fst (snd d), size_file = snd (snd d),
     status = Uploading, progress = 0, uploadedAt = now, error = None \<rparr>"

definition handleFileUpload :: "(string \<times> string \<times> nat) list option \<Rightarrow> nat \<Rightarrow> DocumentUpload \<Rightarrow> DocumentUpload" where
  "handleFileUpload uploadedFiles now s =
     (case uploadedFiles of
        None \<Rightarrow> s
      | Some ds \<Rightarrow>
          let newFiles = map (newFile now) ds
          in fold (\<lambda>file. simulateFileProcessing (id_file file)) newFiles
               (s\<lparr> files := files s @ newFiles \<rparr>))"

definition removeFile :: "string \<Rightarrow> DocumentUpload \<Rightarrow> DocumentUpload" where
  "removeFile fileId s = s\<lparr> files := filter (\<lambda>f. id_file f \<noteq> fileId) (files s) \<rparr>"

subsection \<open>Events and reachable states\<close>

fun liveTimers :: "Timer option list \<Rightarrow> Timer list" where
  "liveTimers [] = []"
| "liveTimers (None # ts) = liveTimers ts"
| "liveTimers (Some t # ts) = t # liveTimers ts"

datatype UploadEvent =
    FilesSelected "(string \<times> string \<times> nat) list option" nat
  | TimerFires nat real
  | RemoveClicked string

fun uploadStep :: "Arith \<Rightarrow> UploadEvent \<Rightarrow> DocumentUpload \<Rightarrow> DocumentUpload" where
  "uploadStep ar (FilesSelected uploadedFiles now) s = handleFileUpload uploadedFiles now s"
| "uploadStep ar (TimerFires k r) s = tick ar k r s"
| "uploadStep ar (RemoveClicked fileId) s = removeFile fileId s"

text \<open>
  What the environment provides: \<^verbatim>\<open>Math.random()\<close> is a double in \<open>[0, 1)\<close>, and the
  identifiers drawn for new records differ from each other, from those in the registry and
  from those of the running timers.
\<close>

definition freshIds :: "string list \<Rightarrow> DocumentUpload \<Rightarrow> bool" where
  "freshIds ids s \<longleftrightarrow>
     distinct ids \<and>
     set ids \<inter> (set (map id_file (files s)) \<union> set (map timerFileId (liveTimers (timers s)))) = {}"

fun admissible :: "Arith \<Rightarrow> UploadEvent \<Rightarrow> DocumentUpload \<Rightarrow> bool" where
  "admissible ar (FilesSelected None now) s = True"
| "admissible ar (FilesSelected (Some ds) now) s = freshIds (map fst ds) s"
| "admissible ar (TimerFires k r) s = (isDouble ar r \<and> 0 \<le> r \<and> r < 1)"
| "admissible ar (RemoveClicked fileId) s = True"

inductive reachableUpload :: "Arith \<Rightarrow> DocumentUpload \<Rightarrow> bool" for ar where
  start: "reachableUpload ar initialUpload"
| next_event: "reachableUpload ar s \<Longrightarrow> admissible ar e s \<Longrightarrow> reachableUpload ar (uploadStep ar e s)"

subsection \<open>Notions used to state the properties\<close>

text \<open>
  An invariant of the reachable states of the registry and the timer table: identifiers
  are distinct in the registry and among the running timers, every progress value is a
  double within 0 and 100, no record has the status error, and the local progress of a
  running upload interval is the stored progress of its record, which is still uploading.
\<close>

definition inRange :: "UploadedFile \<Rightarrow> bool" where
  "inRange f \<longleftrightarrow> 0 \<le> progress f \<and> progress f \<le> 100"

definition timerAgrees :: "Arith \<Rightarrow> UploadedFile list \<Rightarrow> Timer \<Rightarrow> bool" where
  "timerAgrees ar fs t =
     (case t of
        UploadInterval fileId p \<Rightarrow>
          isDouble ar p \<and> 0 \<le> p \<and> p \<le> 100
          \<and> list_all (\<lambda>f. id_file f \<noteq> fileId
                          \<or> (status f = Uploading \<and> progress f = p)) fs
      | _ \<Rightarrow> True)"

definition recordOk :: "Arith \<Rightarrow> UploadedFile \<Rightarrow> bool" where
  "recordOk ar f \<longleftrightarrow> inRange f \<and> isDouble ar (progress f) \<and> status f \<noteq> Error"

definition uploadInv :: "Arith \<Rightarrow> DocumentUpload \<Rightarrow> bool" where
  "uploadInv ar s \<longleftrightarrow>
     distinct (map id_file (files s)) \<and>
     distinct (map timerFileId (liveTimers (timers s))) \<and>
     list_all (recordOk ar) (files s) \<and>
     list_all (timerAgrees ar (files s)) (liveTimers (timers s))"

text \<open>
  One step in the life of a record, from \<open>f\<close> to \<open>f'\<close>: the progress stays within 0 and
  100, and either the phase is kept and the progress does not decrease, or the record
  goes from uploading to processing and its progress is reset to 0, or from processing to
  ready with progress 100.
\<close>

definition lifecycleStep :: "UploadedFile \<Rightarrow> UploadedFile \<Rightarrow> bool" where
  "lifecycleStep f f' \<longleftrightarrow>
     0 \<le> progress f' \<and> progress f' \<le> 100 \<and>
     (status f' = status f \<and> progress f \<le> progress f'
      \<or> status f = Uploading \<and> status f' = Processing \<and> progress f' = 0 \<and> 0 < progress f
      \<or> status f = Processing \<and> status f' = Ready \<and> progress f' = 100)"

text \<open>
  A run of events, each one admissible in the state it meets; the states a run passes
  through; the values that the record with identifier \<open>x\<close> takes along a run; and the
  number of times the progress drops from one value to the next.
\<close>

fun admissibleRun :: "Arith \<Rightarrow> UploadEvent list \<Rightarrow> DocumentUpload \<Rightarrow> bool" where
  "admissibleRun ar [] s = True"
| "admissibleRun ar (e # es) s = (admissible ar e s \<and> admissibleRun ar es (uploadStep ar e s))"

fun runFrom :: "Arith \<Rightarrow> UploadEvent list \<Rightarrow> DocumentUpload \<Rightarrow> DocumentUpload list" where
  "runFrom ar [] s = [s]"
| "runFrom ar (e # es) s = s # runFrom ar es (uploadStep ar e s)"

definition recordOf :: "string \<Rightarrow> DocumentUpload \<Rightarrow> UploadedFile list" where
  "recordOf x s = filter (\<lambda>f. id_file f = x) (files s)"

definition history :: "Arith \<Rightarrow> string \<Rightarrow> UploadEvent list \<Rightarrow> DocumentUpload \<Rightarrow> UploadedFile list" where
  "history ar x es s = concat (map (recordOf x) (runFrom ar es s))"

fun resets :: "UploadedFile list \<Rightarrow> nat" where
  "resets (f # g # fs) = (if progress g < progress f then 1 else 0) + resets (g # fs)"
| "resets fs = 0"

text \<open>No running timer belongs to the identifier: its driver is halted.\<close>

definition driverHalted :: "string \<Rightarrow> DocumentUpload \<Rightarrow> bool" where
  "driverHalted fileId s \<longleftrightarrow> fileId \<notin> set (map timerFileId (liveTimers (timers s)))"

text \<open>Concrete runs.\<close>

definition oneFileSelected :: DocumentUpload where
  "oneFileSelected = handleFileUpload (Some [(''k3j9x0q2a'', ''notes.pdf'', 2000000)]) 5 initialUpload"

definition selectedThenRemoved :: DocumentUpload where
  "selectedThenRemoved = removeFile ''k3j9x0q2a'' oneFileSelected"

text \<open>Further concrete states.\<close>

definition twoFilesSelected :: DocumentUpload where
  "twoFilesSelected =
     handleFileUpload (Some [(''k3j9x0q2a'', ''notes.pdf'', 2000000), (''p7m1w4z8c'', ''plan.md'', 1024)])
       5 initialUpload"

text \<open>
  The whole life of one file of 2,000,000 bytes: six upload ticks, the hand-off, eight
  processing ticks, each with \<^verbatim>\<open>Math.random()\<close> at 0.875.
\<close>

definition wholeLife :: "UploadEvent list" where
  "wholeLife =
     [TimerFires 0 (7/8), TimerFires 0 (7/8), TimerFires 0 (7/8),
      TimerFires 0 (7/8), TimerFires 0 (7/8), TimerFires 0 (7/8),
      TimerFires 1 0,
      TimerFires 2 (7/8), TimerFires 2 (7/8), TimerFires 2 (7/8), TimerFires 2 (7/8),
      TimerFires 2 (7/8), TimerFires 2 (7/8), TimerFires 2 (7/8), TimerFires 2 (7/8)]"








section \<open>DocumentManagement: the document catalog\<close>

record Document =
  chunks_count :: nat
  id_doc :: nat
  source :: string
  doc_type :: string
  namespace :: string
  created_at :: string
  content_preview :: string

record DocumentManagement =
  documents :: "Document list"
  loading :: bool
  error_docs :: "string option"
  searchTerm :: string
  statusFilter :: string
  typeFilter :: string

definition initialDocuments :: DocumentManagement where
  "initialDocuments = \<lparr> documents = [], loading = True, error_docs = None,
     searchTerm = [], statusFilter = ''all'', typeFilter = ''all'' \<rparr>"

text \<open>
  What the awaited calls of \<^verbatim>\<open>fetchDocuments\<close> do: \<^verbatim>\<open>fetch\<close> or \<^verbatim>\<open>response.json()\<close>
  throws (\<open>Some\<close> of the message when the thrown value is an \<^verbatim>\<open>Error\<close>, \<open>None\<close>
  otherwise), or a response arrives with its \<^verbatim>\<open>ok\<close> flag, its status text and the
  \<^verbatim>\<open>documents\<close> of its body.
\<close>

datatype FetchResult = FetchThrew "string option" | FetchResponse bool string "Document list"

definition fetchDocuments :: "FetchResult \<Rightarrow> DocumentManagement \<Rightarrow> DocumentManagement" where
  "fetchDocuments res s =
     (let s1 = s\<lparr> loading := True \<rparr>;
          s2 = s1\<lparr> error_docs := None \<rparr>;
          s3 = (case res of
                  FetchThrew thrown \<Rightarrow>
                    s2\<lparr> error_docs := Some (case thrown of
                                              Some message \<Rightarrow> message
                                            | None \<Rightarrow> ''Failed to fetch documents'') \<rparr>
                | FetchResponse ok statusText docs \<Rightarrow>
                    if \<not> ok
                    then s2\<lparr> error_docs := Some (''Failed to fetch documents: '' @ statusText) \<rparr>
                    else s2\<lparr> documents := docs \<rparr>)
      in s3\<lparr> loading := False \<rparr>)"

text \<open>The alert is rendered under \<^verbatim>\<open>error &&\<close>: when the error text is truthy.\<close>

definition bannerShown :: "DocumentManagement \<Rightarrow> bool" where
  "bannerShown s = truthy (error_docs s)"

text \<open>The fetch failed: a thrown error, or a response that is not ok.\<close>

definition fetchFailed :: "FetchResult \<Rightarrow> bool" where
  "fetchFailed res = (case res of FetchThrew thrown \<Rightarrow> True | FetchResponse ok statusText docs \<Rightarrow> \<not> ok)"

text \<open>A thrown \<^verbatim>\<open>Error\<close> carries a message, as the errors of \<^verbatim>\<open>fetch\<close> do.\<close>

definition thrownWithMessage :: "FetchResult \<Rightarrow> bool" where
  "thrownWithMessage res = (case res of FetchThrew (Some message) \<Rightarrow> message \<noteq> [] | _ \<Rightarrow> True)"

section \<open>Properties of the session manager\<close>

subsection \<open>Auxiliary facts\<close>

declare toString.simps [simp del]

lemma digit_not_g: "d < 10 \<Longrightarrow> digit d \<noteq> CHR ''g''"
proof -
  assume "d < 10"
  then have "d \<in> {0, 1, 2, 3, 4, 5, 6, 7, 8, 9}" by auto
  then show ?thesis by (auto simp: digit_def)
qed

lemma last_toString: "last (toString n) = digit (n mod 10)"
  by (subst toString.simps) simp

lemma toString_not_typing: "toString n \<noteq> ''typing''"
proof
  assume "toString n = ''typing''"
  then have "last (toString n) = CHR ''g''" by simp
  then show False using digit_not_g [of "n mod 10"] by (simp add: last_toString)
qed

lemma pendingCount_simps:
  "pendingCount [] = 0"
  "pendingCount (xs @ ys) = pendingCount xs + pendingCount ys"
  "pendingCount (m # xs) = (if isTyping m = Some True then 1 else 0) + pendingCount xs"
  by (simp_all add: pendingCount_def)

lemma tagged_simps:
  "tagged []"
  "tagged (xs @ ys) = (tagged xs \<and> tagged ys)"
  "tagged (m # xs) = (((id_msg m = ''typing'') = (isTyping m = Some True)) \<and> tagged xs)"
  by (auto simp: tagged_def)

lemma message_fields:
  "id_msg (userMessage now t) \<noteq> ''typing''" "isTyping (userMessage now t) = None"
  "id_msg (typingMessage now) = ''typing''" "isTyping (typingMessage now) = Some True"
  "id_msg (assistantMessage now a) \<noteq> ''typing''" "isTyping (assistantMessage now a) = None"
  "id_msg (errorMessage now) \<noteq> ''typing''" "isTyping (errorMessage now) = None"
  by (simp_all add: userMessage_def typingMessage_def assistantMessage_def errorMessage_def
        toString_not_typing)

lemma tagged_dropTyping: "tagged ms \<Longrightarrow> tagged (dropTyping ms)"
  by (induction ms) (auto simp: tagged_def dropTyping_def)

lemma pendingCount_dropTyping: "tagged ms \<Longrightarrow> pendingCount (dropTyping ms) = 0"
  by (induction ms) (auto simp: tagged_def dropTyping_def pendingCount_def)

lemma dropTyping_id: "tagged ms \<Longrightarrow> pendingCount ms = 0 \<Longrightarrow> dropTyping ms = ms"
  by (induction ms) (auto simp: tagged_def dropTyping_def pendingCount_def split: if_splits)

lemma length_dropTyping: "tagged ms \<Longrightarrow> length (dropTyping ms) + pendingCount ms = length ms"
  by (induction ms) (auto simp: tagged_def dropTyping_def pendingCount_def)

lemma chatInv_initial: "chatInv (initialChat t0)"
  by (simp add: chatInv_def initialChat_def tagged_def pendingCount_def
      initialCustomerMessage_def initialInternalMessage_def)

lemma chatInv_setInputValue: "chatInv s \<Longrightarrow> chatInv (setInputValue v s)"
  by (auto simp: chatInv_def callOk_def setInputValue_def sessionIdOf_def messagesOf_def other_def split: list.splits)

lemma chatInv_setActiveMode: "chatInv s \<Longrightarrow> chatInv (setActiveMode m s)"
  by (auto simp: chatInv_def callOk_def setActiveMode_def sessionIdOf_def messagesOf_def other_def split: list.splits)

lemma chatInv_clearChat: "chatInv s \<Longrightarrow> chatInv (clearChat now s)"
  by (cases "inflight s"; cases "activeMode s"; cases "call_activeMode (hd (inflight s))")
     (auto simp: chatInv_def callOk_def clearChat_def setMessages_def sessionIdOf_def messagesOf_def
        tagged_simps pendingCount_simps toString_not_typing other_def)

lemma chatInv_handleSendMessage: "chatInv s \<Longrightarrow> chatInv (handleSendMessage now s)"
  by (cases "activeMode s"; cases "inflight s")
     (auto simp: chatInv_def callOk_def handleSendMessage_def Let_def setMessages_def sessionIdOf_def
        sessionId_def messagesOf_def tagged_simps pendingCount_simps message_fields other_def)

lemma chatInv_settle: "chatInv s \<Longrightarrow> chatInv (settle k outcome now s)"
proof (cases "k < length (inflight s)")
  case False
  assume "chatInv s"
  with False show ?thesis by (simp add: settle_def)
next
  case True
  assume inv: "chatInv s"
  with True obtain c where c: "inflight s = [c]" and k: "k = 0"
    by (cases "inflight s") (auto simp: chatInv_def)
  show ?thesis
    using inv c k
    by (cases "sendMessageToAPI outcome"; cases "call_activeMode c")
       (auto simp: chatInv_def callOk_def settle_def Let_def setMessages_def setSessionId_def
          sessionIdOf_def messagesOf_def tagged_simps pendingCount_simps message_fields
          other_def tagged_dropTyping pendingCount_dropTyping)
qed

lemma reachable_chatInv: "reachable s \<Longrightarrow> chatInv s"
proof (induction rule: reachable.induct)
  case (mounted t0)
  show ?case by (rule chatInv_initial)
next
  case (after s e)
  then show ?case
    by (cases e)
       (simp_all add: chatInv_setInputValue chatInv_handleSendMessage chatInv_settle
          chatInv_setActiveMode chatInv_clearChat)
qed


lemma reachable_fold: "reachable s \<Longrightarrow> reachable (fold chatStep es s)"
  by (induction es arbitrary: s) (auto intro: reachable.after)

lemma reachable_awaitingFirstAnswer: "reachable awaitingFirstAnswer"
  unfolding awaitingFirstAnswer_def by (rule reachable_fold [OF reachable.mounted])

lemma reachable_busyElsewhere: "reachable busyElsewhere"
  unfolding busyElsewhere_def by (rule reachable_fold [OF reachable_awaitingFirstAnswer])

lemma awaitingFirstAnswer_eq:
  "awaitingFirstAnswer = \<lparr> activeMode = Customer,
     customerMessages = [initialCustomerMessage 0,
        userMessage 10 ''What are the admission requirements?'', typingMessage 10],
     internalMessages = [initialInternalMessage 0],
     inputValue = [], isLoading = True,
     customerSessionId = None, internalSessionId = None,
     inflight = [\<lparr> call_query = ''What are the admission requirements?'',
                   call_activeMode = Customer, call_sessionId = None \<rparr>] \<rparr>"
  by (simp add: awaitingFirstAnswer_def initialChat_def setInputValue_def handleSendMessage_def
        trim_def isWhiteSpace_def setMessages_def sessionId_def sessionIdOf_def Let_def)

lemma handleSendMessage_skip_iff:
  "handleSendMessage now s = s \<longleftrightarrow> trim (inputValue s) = [] \<or> isLoading s"
proof
  assume eq: "handleSendMessage now s = s"
  show "trim (inputValue s) = [] \<or> isLoading s"
  proof (rule ccontr)
    assume "\<not> (trim (inputValue s) = [] \<or> isLoading s)"
    then have "isLoading (handleSendMessage now s)"
      by (simp add: handleSendMessage_def Let_def setMessages_def)
    with eq \<open>\<not> (trim (inputValue s) = [] \<or> isLoading s)\<close> show False by simp
  qed
next
  assume "trim (inputValue s) = [] \<or> isLoading s"
  then show "handleSendMessage now s = s" by (simp add: handleSendMessage_def)
qed

lemma reachable_clearedThenAnswered: "reachable clearedThenAnswered"
  unfolding clearedThenAnswered_def by (rule reachable_fold [OF reachable_awaitingFirstAnswer])

lemma settle_single:
  assumes "inflight s = [c]"
  shows "messagesOf (call_activeMode c) (settle 0 outcome now s) =
           dropTyping (messagesOf (call_activeMode c) s) @ [finalMessage outcome now]
    \<and> messagesOf (other (call_activeMode c)) (settle 0 outcome now s) =
           messagesOf (other (call_activeMode c)) s
    \<and> sessionIdOf (other (call_activeMode c)) (settle 0 outcome now s) =
           sessionIdOf (other (call_activeMode c)) s
    \<and> isLoading (settle 0 outcome now s) = False
    \<and> inflight (settle 0 outcome now s) = []
    \<and> activeMode (settle 0 outcome now s) = activeMode s"
proof (cases "sendMessageToAPI outcome")
  case (Inl e)
  with assms show ?thesis
    by (cases "call_activeMode c")
       (simp_all add: settle_def Let_def setMessages_def messagesOf_def
          sessionIdOf_def other_def finalMessage_def)
next
  case (Inr r)
  obtain a sid where "r = (a, sid)" by (cases r)
  with Inr assms show ?thesis
    by (cases "call_activeMode c")
       (simp_all add: settle_def Let_def setMessages_def setSessionId_def messagesOf_def
          sessionIdOf_def other_def finalMessage_def)
qed

lemma finalMessage_fields:
  "id_msg (finalMessage outcome now) \<noteq> ''typing''" "isTyping (finalMessage outcome now) = None"
  "type_msg (finalMessage outcome now) = Assistant"
  by (simp_all add: finalMessage_def message_fields assistantMessage_def errorMessage_def
        toString_not_typing split: sum.splits)

lemma chatInv_tagged: "chatInv s \<Longrightarrow> tagged (messagesOf m s)"
  by (simp add: chatInv_def messagesOf_def)

lemma chatInv_idle:
  "chatInv s \<Longrightarrow> \<not> isLoading s \<Longrightarrow>
     inflight s = [] \<and> pendingCount (messagesOf m s) = 0 \<and> tagged (messagesOf m s)"
  by (cases "inflight s") (auto simp: chatInv_def messagesOf_def)

lemma handleSendMessage_accepts:
  assumes "trim (inputValue s) \<noteq> []" and "\<not> isLoading s"
  shows "messagesOf (activeMode s) (handleSendMessage now s) =
           messagesOf (activeMode s) s @ [userMessage now (inputValue s), typingMessage now]
         \<and> inflight (handleSendMessage now s) = inflight s @
             [\<lparr> call_query = inputValue s, call_activeMode = activeMode s,
                call_sessionId = sessionId s \<rparr>]
         \<and> activeMode (handleSendMessage now s) = activeMode s"
  using assms
  by (cases "activeMode s")
     (simp_all add: handleSendMessage_def Let_def setMessages_def messagesOf_def)



lemma settle_token:
  assumes "inflight s = [c]"
  shows "sessionIdOf (call_activeMode c) (settle 0 (Responded True answer session_id) now s) =
           (if truthy session_id \<and> session_id \<noteq> call_sessionId c then session_id
            else sessionIdOf (call_activeMode c) s)"
  using assms
  by (cases "call_activeMode c")
     (simp_all add: settle_def Let_def setMessages_def setSessionId_def sessionIdOf_def)


lemma chatInv_call:
  "chatInv s \<Longrightarrow> inflight s = [c] \<Longrightarrow> call_sessionId c = sessionIdOf (call_activeMode c) s"
  by (simp add: chatInv_def callOk_def)

subsection \<open>Sending\<close>

text \<open>
  C2 (as the code has it).  \<^verbatim>\<open>handleSendMessage\<close> is skipped, leaving the state as it
  is, exactly when the input is empty after trimming or a call is outstanding in either
  mode: the guard reads the one \<^verbatim>\<open>isLoading\<close> flag, which is set exactly while a call is
  in flight.  Hence at most one call is outstanding at any time.
\<close>

theorem sendMessage_skipped_iff_blank_or_loading:
  assumes "reachable s"
  shows "(handleSendMessage now s = s \<longleftrightarrow> trim (inputValue s) = [] \<or> inflight s \<noteq> [])
         \<and> length (inflight s) \<le> 1"
proof -
  from assms have "chatInv s" by (rule reachable_chatInv)
  then have "isLoading s = (inflight s \<noteq> [])" and "length (inflight s) \<le> 1"
    by (auto simp: chatInv_def split: list.splits)
  then show ?thesis by (simp add: handleSendMessage_skip_iff)
qed


theorem sendMessage_skipped_iff_blank_or_loading_witness:
  "reachable awaitingFirstAnswer
   \<and> handleSendMessage 40 awaitingFirstAnswer = awaitingFirstAnswer
   \<and> inflight awaitingFirstAnswer \<noteq> []
   \<and> length (inflight awaitingFirstAnswer) \<le> 1"
proof -
  have busy: "inflight awaitingFirstAnswer \<noteq> []"
    by (simp add: awaitingFirstAnswer_eq)
  with sendMessage_skipped_iff_blank_or_loading [OF reachable_awaitingFirstAnswer, of 40] reachable_awaitingFirstAnswer
  show ?thesis by simp
qed



text \<open>
  C2 as stated fails.  With a customer-mode call outstanding, the user switches to the
  internal mode and picks a quick question: the send is skipped although the text is not
  blank and no internal-mode call is outstanding.
\<close>

theorem sendMessage_blocked_by_call_of_other_mode:
  "reachable busyElsewhere
   \<and> handleSendMessage 40 busyElsewhere = busyElsewhere
   \<and> trim (inputValue busyElsewhere) \<noteq> []
   \<and> \<not> outstandingIn (activeMode busyElsewhere) busyElsewhere"
  by (simp add: reachable_busyElsewhere)
     (simp add: busyElsewhere_def awaitingFirstAnswer_eq setActiveMode_def setInputValue_def
        handleSendMessage_def trim_def isWhiteSpace_def outstandingIn_def)







subsection \<open>Settling a call\<close>

text \<open>
  When the outstanding call settles, its final message is appended to the timeline of the
  mode recorded with the call, and the other timeline is unchanged.
\<close>

lemma settle_appends_to_timeline_of_call:
  assumes "reachable s" and "inflight s = [c]"
  shows "messagesOf (call_activeMode c) (settle 0 outcome now s) =
           dropTyping (messagesOf (call_activeMode c) s) @ [finalMessage outcome now]
         \<and> messagesOf (other (call_activeMode c)) (settle 0 outcome now s) =
           messagesOf (other (call_activeMode c)) s
         \<and> pendingCount (messagesOf (call_activeMode c) (settle 0 outcome now s)) = 0
         \<and> length (messagesOf (call_activeMode c) (settle 0 outcome now s))
             \<le> Suc (length (messagesOf (call_activeMode c) s))"
proof -
  let ?m = "call_activeMode c"
  from assms(1) have "chatInv s" by (rule reachable_chatInv)
  then have t: "tagged (messagesOf ?m s)" by (rule chatInv_tagged)
  have len: "length (dropTyping (messagesOf ?m s)) \<le> length (messagesOf ?m s)"
    by (simp add: dropTyping_def)
  from t len show ?thesis
    by (simp add: settle_single [OF assms(2)] pendingCount_simps pendingCount_dropTyping
          finalMessage_fields)
qed

text \<open>
  While a call is outstanding, what the user does leaves the call as it was recorded at
  the send: a switch of mode, a clear and a new text do not touch it, and a further send
  is skipped.
\<close>

lemma interim_keeps_call:
  assumes "isLoading s" and "interim e"
  shows "inflight (chatStep e s) = inflight s \<and> isLoading (chatStep e s)"
  using assms
  by (cases e; cases "activeMode s")
     (simp_all add: setInputValue_def handleSendMessage_def setActiveMode_def clearChat_def
        setMessages_def Let_def)

lemma interims_keep_call:
  "isLoading s \<Longrightarrow> list_all interim es \<Longrightarrow>
     inflight (fold chatStep es s) = inflight s \<and> isLoading (fold chatStep es s)"
proof (induction es arbitrary: s)
  case Nil
  then show ?case by simp
next
  case (Cons e es)
  from Cons.prems have e: "interim e" and es: "list_all interim es" by simp_all
  from interim_keeps_call [OF Cons.prems(1) e]
  have keep: "inflight (chatStep e s) = inflight s" and busy: "isLoading (chatStep e s)"
    by simp_all
  from Cons.IH [OF busy es] keep show ?case by simp
qed

lemma call_of_send:
  assumes "reachable s" and "\<not> isLoading s" and "trim (inputValue s) \<noteq> []"
  shows "inflight (handleSendMessage t1 s) =
           [\<lparr> call_query = inputValue s, call_activeMode = activeMode s,
              call_sessionId = sessionId s \<rparr>]
         \<and> isLoading (handleSendMessage t1 s)"
proof -
  from assms(1) have "chatInv s" by (rule reachable_chatInv)
  from chatInv_idle [OF this assms(2), of "activeMode s"] have "inflight s = []" by simp
  with handleSendMessage_accepts [OF assms(3) assms(2), of t1] assms(2,3) show ?thesis
    by (simp add: handleSendMessage_skip_iff) (simp add: handleSendMessage_def Let_def setMessages_def)
qed

text \<open>
  C3 (as the code has it).  A message is sent from an idle reachable state, in the mode
  active at that moment.  While the call is outstanding the user may switch the mode, clear
  the conversation, enter a text or try to send.  When the call then settles, with success
  or failure, the call still carries the mode of the send; its final message is appended
  to the timeline of that mode, whatever mode is active by then, and the other timeline is
  unchanged; the placeholder is dropped if it is still there, no pending placeholder
  remains, and the timeline gains at most one entry.
\<close>

theorem response_routed_to_originating_timeline:
  assumes "reachable s" and "\<not> isLoading s" and "trim (inputValue s) \<noteq> []"
    and "list_all interim es"
  shows "map call_activeMode (inflight (fold chatStep es (handleSendMessage t1 s))) = [activeMode s]
         \<and> messagesOf (activeMode s)
               (settle 0 outcome t2 (fold chatStep es (handleSendMessage t1 s))) =
             dropTyping (messagesOf (activeMode s) (fold chatStep es (handleSendMessage t1 s)))
               @ [finalMessage outcome t2]
         \<and> messagesOf (other (activeMode s))
               (settle 0 outcome t2 (fold chatStep es (handleSendMessage t1 s))) =
             messagesOf (other (activeMode s)) (fold chatStep es (handleSendMessage t1 s))
         \<and> pendingCount (messagesOf (activeMode s)
               (settle 0 outcome t2 (fold chatStep es (handleSendMessage t1 s)))) = 0
         \<and> length (messagesOf (activeMode s)
               (settle 0 outcome t2 (fold chatStep es (handleSendMessage t1 s))))
             \<le> Suc (length (messagesOf (activeMode s) (fold chatStep es (handleSendMessage t1 s))))"
proof -
  let ?c = "\<lparr> call_query = inputValue s, call_activeMode = activeMode s,
              call_sessionId = sessionId s \<rparr>"
  let ?s1 = "handleSendMessage t1 s"
  let ?s2 = "fold chatStep es ?s1"
  from call_of_send [OF assms(1-3), of t1]
  have sent: "inflight ?s1 = [?c]" and busy: "isLoading ?s1" by simp_all
  from interims_keep_call [OF busy assms(4)] sent have fly: "inflight ?s2 = [?c]" by simp
  have "reachable ?s1" using reachable.after [OF assms(1), of "HandleSendMessage t1"] by simp
  then have reach: "reachable ?s2" by (rule reachable_fold)
  have recorded: "map call_activeMode (inflight ?s2) = [activeMode s]" by (simp add: fly)
  note routed = settle_appends_to_timeline_of_call
    [OF reach fly, of outcome t2, unfolded InFlight.select_convs]
  from recorded routed show ?thesis by (rule conjI)
qed

text \<open>
  A question asked in the internal mode; the user then switches to the customer mode,
  tries to send and clears; the answer arrives in the internal timeline and the customer
  timeline, which is the visible one, stays as cleared.
\<close>

lemma askingInternally_eq:
  "askingInternally = \<lparr> activeMode = Internal,
     customerMessages = [initialCustomerMessage 0],
     internalMessages = [initialInternalMessage 0],
     inputValue = ''Show me student enrollment statistics'', isLoading = False,
     customerSessionId = None, internalSessionId = None,
     inflight = [] \<rparr>"
  by (simp add: askingInternally_def initialChat_def setActiveMode_def setInputValue_def)

lemma interrupted_internal_question:
  "fold chatStep switchThenClear (handleSendMessage 10 askingInternally) =
     \<lparr> activeMode = Customer,
       customerMessages = [\<lparr> id_msg = toString 20, type_msg = System,
            content = ''Chat cleared. How can I help you with our products and services today?'',
            timestamp = 20, sources = None, isTyping = None \<rparr>],
       internalMessages = [initialInternalMessage 0,
          userMessage 10 ''Show me student enrollment statistics'', typingMessage 10],
       inputValue = [], isLoading = True,
       customerSessionId = None, internalSessionId = None,
       inflight = [\<lparr> call_query = ''Show me student enrollment statistics'',
                     call_activeMode = Internal, call_sessionId = None \<rparr>] \<rparr>"
  by (simp add: switchThenClear_def askingInternally_eq handleSendMessage_def trim_def
        isWhiteSpace_def setMessages_def sessionId_def sessionIdOf_def Let_def
        setActiveMode_def clearChat_def)

theorem response_routed_to_originating_timeline_witness:
  "reachable askingInternally
   \<and> \<not> isLoading askingInternally
   \<and> trim (inputValue askingInternally) \<noteq> []
   \<and> list_all interim switchThenClear
   \<and> activeMode askingInternally = Internal
   \<and> activeMode (settle 0 (Responded True ''Enrollment is up.'' None) 30
         (fold chatStep switchThenClear (handleSendMessage 10 askingInternally))) = Customer
   \<and> internalMessages (settle 0 (Responded True ''Enrollment is up.'' None) 30
         (fold chatStep switchThenClear (handleSendMessage 10 askingInternally))) =
       [initialInternalMessage 0, userMessage 10 ''Show me student enrollment statistics'',
        assistantMessage 30 ''Enrollment is up.'']
   \<and> customerMessages (settle 0 (Responded True ''Enrollment is up.'' None) 30
         (fold chatStep switchThenClear (handleSendMessage 10 askingInternally))) =
       customerMessages (fold chatStep switchThenClear (handleSendMessage 10 askingInternally))"
proof -
  have r: "reachable askingInternally"
    unfolding askingInternally_def by (rule reachable_fold [OF reachable.mounted])
  have i: "\<not> isLoading askingInternally"
    and q: "trim (inputValue askingInternally) \<noteq> []"
    and m: "activeMode askingInternally = Internal"
    by (simp_all add: askingInternally_eq trim_def isWhiteSpace_def)
  have e: "list_all interim switchThenClear" by (simp add: switchThenClear_def)
  let ?s2 = "fold chatStep switchThenClear (handleSendMessage 10 askingInternally)"
  have fly: "inflight ?s2 = [\<lparr> call_query = ''Show me student enrollment statistics'',
                     call_activeMode = Internal, call_sessionId = None \<rparr>]"
    and before: "internalMessages ?s2 = [initialInternalMessage 0,
          userMessage 10 ''Show me student enrollment statistics'', typingMessage 10]"
    by (simp_all add: interrupted_internal_question)
  have visible: "activeMode (settle 0 (Responded True ''Enrollment is up.'' None) 30 ?s2) = Customer"
    using settle_single [OF fly, of "Responded True ''Enrollment is up.'' None" 30]
    by (simp add: interrupted_internal_question)
  note inst = response_routed_to_originating_timeline
    [OF r i q e, where ?t1.0 = 10 and outcome = "Responded True ''Enrollment is up.'' None"
       and ?t2.0 = 30]
  from inst have
    "internalMessages (settle 0 (Responded True ''Enrollment is up.'' None) 30 ?s2) =
       [initialInternalMessage 0, userMessage 10 ''Show me student enrollment statistics'',
        assistantMessage 30 ''Enrollment is up.'']
     \<and> customerMessages (settle 0 (Responded True ''Enrollment is up.'' None) 30 ?s2) =
         customerMessages ?s2"
    by (simp add: m messagesOf_def other_def before dropTyping_def message_fields
          initialInternalMessage_def finalMessage_def)
  with r i q e m visible show ?thesis by blast
qed


text \<open>
  An exchange that is not interrupted keeps every answer behind its question.
\<close>

lemma paired_append:
  "paired p (xs @ ys) =
     (paired p xs \<and> paired (if xs = [] then p else Some (type_msg (last xs))) ys)"
  by (induction xs arbitrary: p) auto

lemma sendRound_keeps_orphanFree:
  assumes inv: "chatInv s" and idle: "\<not> isLoading s" and nonblank: "trim q \<noteq> []"
    and free: "orphanFree (messagesOf (activeMode s) s)"
  shows "orphanFree (messagesOf (activeMode s) (sendRound (q, t1, outcome, t2) s))"
proof -
  let ?a = "setInputValue q s"
  let ?b = "handleSendMessage t1 ?a"
  let ?m = "activeMode s"
  from chatInv_idle [OF inv idle, of ?m]
  have s_idle: "inflight s = []" "pendingCount (messagesOf ?m s) = 0" "tagged (messagesOf ?m s)"
    by simp_all
  have a: "\<not> isLoading ?a" "trim (inputValue ?a) \<noteq> []" "activeMode ?a = ?m"
    "messagesOf ?m ?a = messagesOf ?m s" "inflight ?a = []" "inputValue ?a = q"
    using idle nonblank s_idle(1) by (simp_all add: setInputValue_def messagesOf_def)
  from handleSendMessage_accepts [OF a(2) a(1), of t1]
  have b_msgs: "messagesOf ?m ?b = messagesOf ?m s @ [userMessage t1 q, typingMessage t1]"
    and b_fly: "inflight ?b = [\<lparr> call_query = q, call_activeMode = ?m,
                                  call_sessionId = sessionId ?a \<rparr>]"
    by (simp_all add: a)
  from settle_single [OF b_fly, of outcome t2]
  have "messagesOf ?m (settle 0 outcome t2 ?b) =
          dropTyping (messagesOf ?m ?b) @ [finalMessage outcome t2]"
    by simp
  moreover have "dropTyping (messagesOf ?m ?b) = messagesOf ?m s @ [userMessage t1 q]"
    using dropTyping_id [OF s_idle(3) s_idle(2)]
    by (simp add: b_msgs dropTyping_def message_fields)
  ultimately have "messagesOf ?m (sendRound (q, t1, outcome, t2) s) =
          messagesOf ?m s @ [userMessage t1 q, finalMessage outcome t2]"
    by simp
  with free show ?thesis
    by (simp add: orphanFree_def paired_append userMessage_def finalMessage_fields)
qed

text \<open>
  C3 as stated fails.  A question is sent, the conversation is cleared while the call is
  outstanding, then the answer arrives: the cleared timeline becomes the fresh greeting
  followed by an assistant answer that has no question.
\<close>

theorem answer_after_clear_is_orphaned:
  "reachable clearedThenAnswered
   \<and> map type_msg (customerMessages clearedThenAnswered) = [System, Assistant]
   \<and> \<not> orphanFree (customerMessages clearedThenAnswered)"
  by (simp add: reachable_clearedThenAnswered)
     (simp add: clearedThenAnswered_def awaitingFirstAnswer_eq clearChat_def settle_def
        setMessages_def setSessionId_def truthy_def Let_def dropTyping_def toString_not_typing
        assistantMessage_def orphanFree_def)



text \<open>
  C5 (as the code has it).  When the outstanding call succeeds, the placeholder is dropped
  and a final assistant message with the returned answer is appended to the timeline of the
  call's mode; the token of that mode becomes the returned \<^verbatim>\<open>session_id\<close> if and only if
  that is present, not the empty string, and different from the current token; the token
  of the other mode is unchanged.
\<close>

theorem success_replaces_placeholder_and_sets_token:
  assumes "reachable s" and "inflight s = [c]"
  shows "messagesOf (call_activeMode c) (settle 0 (Responded True answer session_id) now s) =
           dropTyping (messagesOf (call_activeMode c) s) @ [assistantMessage now answer]
         \<and> type_msg (assistantMessage now answer) = Assistant
         \<and> content (assistantMessage now answer) = answer
         \<and> isTyping (assistantMessage now answer) = None
         \<and> pendingCount (messagesOf (call_activeMode c)
               (settle 0 (Responded True answer session_id) now s)) = 0
         \<and> sessionIdOf (call_activeMode c) (settle 0 (Responded True answer session_id) now s) =
             (if truthy session_id \<and> session_id \<noteq> sessionIdOf (call_activeMode c) s
              then session_id else sessionIdOf (call_activeMode c) s)
         \<and> sessionIdOf (other (call_activeMode c))
               (settle 0 (Responded True answer session_id) now s) =
             sessionIdOf (other (call_activeMode c)) s"
proof -
  let ?m = "call_activeMode c"
  from assms(1) have inv: "chatInv s" by (rule reachable_chatInv)
  have t: "tagged (messagesOf ?m s)" using inv by (rule chatInv_tagged)
  have f: "finalMessage (Responded True answer session_id) now = assistantMessage now answer"
    by (simp add: finalMessage_def)
  note st = settle_single [OF assms(2), of "Responded True answer session_id" now, unfolded f]
  show ?thesis
    using t
    by (simp add: st settle_token [OF assms(2)] chatInv_call [OF inv assms(2)]
          pendingCount_simps pendingCount_dropTyping message_fields)
       (simp add: assistantMessage_def)
qed


text \<open>
  The scenario of C5: the first customer-mode query, with no prior token, answered with
  \<^verbatim>\<open>session_id\<close> \<open>abc\<close>.
\<close>

theorem first_customer_query_scenario:
  "reachable awaitingFirstAnswer
   \<and> length (customerMessages (settle 0 (Responded True ''See the admissions page.'' (Some ''abc'')) 30
        awaitingFirstAnswer)) = length (customerMessages (initialChat 0)) + 2
   \<and> customerSessionId (settle 0 (Responded True ''See the admissions page.'' (Some ''abc'')) 30
        awaitingFirstAnswer) = Some ''abc''
   \<and> internalSessionId (settle 0 (Responded True ''See the admissions page.'' (Some ''abc'')) 30
        awaitingFirstAnswer) = None"
proof -
  let ?c = "\<lparr> call_query = ''What are the admission requirements?'',
              call_activeMode = Customer, call_sessionId = None \<rparr>"
  have fly: "inflight awaitingFirstAnswer = [?c]" by (simp add: awaitingFirstAnswer_eq)
  have before: "customerMessages awaitingFirstAnswer = [initialCustomerMessage 0,
        userMessage 10 ''What are the admission requirements?'', typingMessage 10]"
    "customerSessionId awaitingFirstAnswer = None" "internalSessionId awaitingFirstAnswer = None"
    by (simp_all add: awaitingFirstAnswer_eq)
  from success_replaces_placeholder_and_sets_token [OF reachable_awaitingFirstAnswer fly, of "''See the admissions page.''" "Some ''abc''" 30]
  show ?thesis
    by (simp add: reachable_awaitingFirstAnswer messagesOf_def sessionIdOf_def other_def before
          truthy_def dropTyping_def message_fields initialCustomerMessage_def initialChat_def)
qed


text \<open>
  C5 as stated fails when the gateway returns the empty string as \<^verbatim>\<open>session_id\<close>: it is
  present and differs from the absent token, yet the token stays absent.
\<close>

theorem empty_session_id_is_not_stored:
  "reachable awaitingFirstAnswer
   \<and> customerSessionId (settle 0 (Responded True ''See the admissions page.'' (Some [])) 30
        awaitingFirstAnswer)
      \<noteq> claimedToken (customerSessionId awaitingFirstAnswer) (Some [])"
  by (simp add: reachable_awaitingFirstAnswer)
     (simp add: awaitingFirstAnswer_eq settle_def Let_def truthy_def setMessages_def
        claimedToken_def)






subsection \<open>Clearing\<close>

text \<open>
  C9. \<^verbatim>\<open>clearChat\<close> replaces the timeline of the active mode by exactly one fresh message
  of role system, whose text depends on the mode, and changes neither continuity token.
\<close>

theorem clearChat_single_system_greeting:
  "length (messages (clearChat now s)) = 1
   \<and> type_msg (hd (messages (clearChat now s))) = System
   \<and> content (hd (messages (clearChat now s))) =
       (if activeMode s = Customer
        then ''Chat cleared. How can I help you with our products and services today?''
        else ''Chat cleared. What internal information would you like to access?'')
   \<and> isTyping (hd (messages (clearChat now s))) = None
   \<and> customerSessionId (clearChat now s) = customerSessionId s
   \<and> internalSessionId (clearChat now s) = internalSessionId s
   \<and> messagesOf (other (activeMode s)) (clearChat now s) = messagesOf (other (activeMode s)) s
   \<and> activeMode (clearChat now s) = activeMode s"
  by (cases "activeMode s")
     (simp_all add: clearChat_def messages_def messagesOf_def setMessages_def other_def)

section \<open>Properties of the upload registry\<close>

subsection \<open>Auxiliary facts\<close>

lemma liveTimers_append: "liveTimers (xs @ ys) = liveTimers xs @ liveTimers ys"
  by (induction xs rule: liveTimers.induct) simp_all

lemma set_liveTimers: "t \<in> set (liveTimers ts) \<longleftrightarrow> Some t \<in> set ts"
  by (induction ts rule: liveTimers.induct) auto

lemma split_at_timer:
  assumes "k < length ts"
  shows "ts = take k ts @ (ts ! k) # drop (Suc k) ts
         \<and> ts[k := v] = take k ts @ v # drop (Suc k) ts"
  using assms by (simp add: id_take_nth_drop [symmetric] upd_conv_take_nth_drop)

lemma fold_simulate:
  "fold (\<lambda>file. simulateFileProcessing (id_file file)) fs s =
     s\<lparr> timers := timers s @ map (\<lambda>f. Some (UploadInterval (id_file f) 0)) fs \<rparr>"
  by (induction fs arbitrary: s) (simp_all add: simulateFileProcessing_def)

lemma handleFileUpload_Some:
  "handleFileUpload (Some ds) now s =
     \<lparr> files = files s @ map (newFile now) ds,
       timers = timers s @ map (\<lambda>d. Some (UploadInterval (fst d) 0)) ds \<rparr>"
  by (simp add: handleFileUpload_def Let_def fold_simulate newFile_def comp_def)

lemma liveTimers_new:
  "liveTimers (map (\<lambda>d. Some (UploadInterval (fst d) 0)) ds) = map (\<lambda>d. UploadInterval (fst d) 0) ds"
  by (induction ds) simp_all

lemma uploadInv_initial: "uploadInv ar initialUpload"
  by (simp add: uploadInv_def initialUpload_def)

lemma timerAgrees_simps:
  "timerAgrees ar fs (UploadInterval x p) \<longleftrightarrow>
     isDouble ar p \<and> 0 \<le> p \<and> p \<le> 100
     \<and> (\<forall>f\<in>set fs. id_file f = x \<longrightarrow> status f = Uploading \<and> progress f = p)"
  "timerAgrees ar fs (HandOffTimeout x)" "timerAgrees ar fs (ProcessingInterval x)"
  by (auto simp: timerAgrees_def list_all_iff)

lemma timerAgrees_filter: "timerAgrees ar fs t \<Longrightarrow> timerAgrees ar (filter P fs) t"
  by (cases t) (auto simp: timerAgrees_simps)

lemma timerAgrees_append_fresh:
  "timerAgrees ar fs t \<Longrightarrow> \<forall>f\<in>set gs. id_file f \<noteq> timerFileId t \<Longrightarrow> timerAgrees ar (fs @ gs) t"
  by (cases t) (auto simp: timerAgrees_simps)

lemma timerAgrees_map_other:
  "timerAgrees ar fs t \<Longrightarrow> timerFileId t \<noteq> x \<Longrightarrow> (\<And>f. id_file (g f) = id_file f) \<Longrightarrow>
     timerAgrees ar (map (\<lambda>f. if id_file f = x then g f else f) fs) t"
  by (cases t) (auto simp: timerAgrees_simps)

lemma timerAgrees_store:
  "timerAgrees ar fs (UploadInterval x p) \<Longrightarrow> isDouble ar q \<Longrightarrow> 0 \<le> q \<Longrightarrow> q \<le> 100 \<Longrightarrow>
     timerAgrees ar (map (\<lambda>f. if id_file f = x then f\<lparr> progress := q \<rparr> else f) fs)
       (UploadInterval x q)"
  unfolding timerAgrees_simps by (simp add: ball_Un image_iff)

lemma timerAgrees_processingStep:
  "timerAgrees ar fs t \<Longrightarrow> timerAgrees ar (map (processingStep ar x r) fs) t"
  by (cases t) (auto simp: timerAgrees_simps processingStep_def Let_def)

text \<open>The facts about the doubles, in the form the proofs use.\<close>

lemma ieee_constants: "ieee ar \<Longrightarrow> isDouble ar 0 \<and> isDouble ar 100"
  by (simp add: ieee_def)

lemma ieee_upload_sum:
  assumes "ieee ar" and "isDouble ar r" and "0 \<le> r" and "r < 1"
    and "isDouble ar p" and "0 \<le> p" and "p \<le> 100"
  shows "isDouble ar (fadd ar p (fmul ar r 20)) \<and> p \<le> fadd ar p (fmul ar r 20)"
proof -
  from assms(1-4) have "isDouble ar (fmul ar r 20) \<and> 0 \<le> fmul ar r 20 \<and> fmul ar r 20 \<le> 20"
    unfolding ieee_def by blast
  with assms(1,5-7) show ?thesis unfolding ieee_def by blast
qed

lemma ieee_processing_sum:
  assumes "ieee ar" and "isDouble ar r" and "0 \<le> r" and "r < 1"
    and "isDouble ar p" and "0 \<le> p" and "p \<le> 100"
  shows "isDouble ar (fadd ar p (fmul ar r 15)) \<and> p \<le> fadd ar p (fmul ar r 15)"
proof -
  from assms(1-4) have "isDouble ar (fmul ar r 15) \<and> 0 \<le> fmul ar r 15 \<and> fmul ar r 15 \<le> 15"
    unfolding ieee_def by blast
  then have "isDouble ar (fmul ar r 15) \<and> 0 \<le> fmul ar r 15 \<and> fmul ar r 15 \<le> 20" by simp
  with assms(1,5-7) show ?thesis unfolding ieee_def by blast
qed

lemma ieee_sum_from_zero:
  assumes "ieee ar" and "isDouble ar r" and "0 \<le> r" and "r < 1"
  shows "fadd ar 0 (fmul ar r 20) \<le> 20"
proof -
  from assms have m: "isDouble ar (fmul ar r 20) \<and> fmul ar r 20 \<le> 20"
    unfolding ieee_def by blast
  with assms(1) have "fadd ar 0 (fmul ar r 20) = fmul ar r 20" unfolding ieee_def by blast
  with m show ?thesis by simp
qed

lemma uploadInv_removeFile: "uploadInv ar s \<Longrightarrow> uploadInv ar (removeFile x s)"
  by (auto simp: uploadInv_def removeFile_def distinct_map_filter list_all_iff timerAgrees_filter)

lemma uploadInv_handleFileUpload:
  assumes "ieee ar" and "uploadInv ar s" and "admissible ar (FilesSelected u now) s"
  shows "uploadInv ar (handleFileUpload u now s)"
proof (cases u)
  case None
  with assms show ?thesis by (simp add: handleFileUpload_def)
next
  case (Some ds)
  with assms(3) have fresh: "freshIds (map fst ds) s" by simp
  have ids: "map (id_file \<circ> newFile now) ds = map fst ds"
    by (simp add: newFile_def comp_def)
  have tids: "map (timerFileId \<circ> (\<lambda>d. UploadInterval (fst d) 0)) ds = map fst ds"
    by (simp add: comp_def)
  have zero: "isDouble ar 0" using ieee_constants [OF assms(1)] by simp
  from fresh have d: "distinct (map fst ds)"
    and f1: "\<And>d f. d \<in> set ds \<Longrightarrow> f \<in> set (files s) \<Longrightarrow> id_file f \<noteq> fst d"
    and f2: "\<And>d t. d \<in> set ds \<Longrightarrow> t \<in> set (liveTimers (timers s)) \<Longrightarrow> timerFileId t \<noteq> fst d"
    by (auto simp: freshIds_def)
  have old: "timerAgrees ar (files s @ map (newFile now) ds) t"
    if m: "t \<in> set (liveTimers (timers s))" and ag: "timerAgrees ar (files s) t" for t
  proof -
    have "\<forall>f\<in>set (map (newFile now) ds). id_file f \<noteq> timerFileId t"
      using f2 [OF _ m] by (force simp: newFile_def)
    with ag show ?thesis by (rule timerAgrees_append_fresh)
  qed
  have new: "\<And>d. d \<in> set ds \<Longrightarrow>
                 timerAgrees ar (files s @ map (newFile now) ds) (UploadInterval (fst d) 0)"
    using f1 zero by (auto simp: timerAgrees_simps newFile_def)
  have fresh_ok: "\<And>d. recordOk ar (newFile now d)"
    using zero by (simp add: recordOk_def inRange_def newFile_def)
  show ?thesis
    using assms(2) d f1 f2 old new fresh_ok
    unfolding Some handleFileUpload_Some uploadInv_def
    by (auto simp: liveTimers_append liveTimers_new ids tids list_all_iff)
qed

lemma map_id_file_preserved:
  "(\<And>f. id_file (g f) = id_file f) \<Longrightarrow> map id_file (map g fs) = map id_file fs"
  by (induction fs) simp_all

lemma id_file_processingStep: "id_file (processingStep ar x r f) = id_file f"
  by (simp add: processingStep_def Let_def)

lemma running_timer:
  assumes "k < length ts" and "ts ! k = Some t"
  shows "\<exists>A B. ts = A @ Some t # B \<and> (\<forall>v. ts[k := v] = A @ v # B)"
proof (intro exI conjI allI)
  show "ts = take k ts @ Some t # drop (Suc k) ts"
    using split_at_timer [OF assms(1)] assms(2) by simp
  show "ts[k := v] = take k ts @ v # drop (Suc k) ts" for v
    using split_at_timer [OF assms(1)] by simp
qed

lemma uploadInv_uploadTick:
  assumes ie: "ieee ar" and inv: "uploadInv ar s"
    and rd: "isDouble ar r" and r: "0 \<le> r" and r1: "r < 1"
    and k: "k < length (timers s)" and t: "timers s ! k = Some (UploadInterval x p)"
  shows "uploadInv ar (uploadTick ar k x p r s)"
proof -
  from running_timer [OF k t] obtain A B where ts: "timers s = A @ Some (UploadInterval x p) # B"
    and upd0: "\<And>v. (timers s)[k := v] = A @ v # B"
    by blast
  note upd = upd0 [unfolded ts]
  let ?p1 = "fadd ar p (fmul ar r 20)"
  let ?toProcessing = "\<lambda>f. if id_file f = x then f\<lparr> status := Processing, progress := 0 \<rparr> else f"
  let ?store = "\<lambda>f. if id_file f = x then f\<lparr> progress := ?p1 \<rparr> else f"
  from inv have fs: "distinct (map id_file (files s))" "list_all (recordOk ar) (files s)"
    and tids: "distinct (map timerFileId (liveTimers A) @ x # map timerFileId (liveTimers B))"
    and mine: "timerAgrees ar (files s) (UploadInterval x p)"
    and others: "\<And>t. t \<in> set (liveTimers A) \<union> set (liveTimers B) \<Longrightarrow> timerAgrees ar (files s) t"
    by (auto simp: uploadInv_def ts liveTimers_append list_all_iff)
  from mine have p: "isDouble ar p" "0 \<le> p" "p \<le> 100" by (simp_all add: timerAgrees_simps)
  from ieee_upload_sum [OF ie rd r r1 p] have p1: "isDouble ar ?p1" "p \<le> ?p1" by simp_all
  have zero: "isDouble ar 0" using ieee_constants [OF ie] by simp
  have others': "timerAgrees ar (map (\<lambda>f. if id_file f = x then g f else f) (files s)) t"
    if m: "t \<in> set (liveTimers A) \<union> set (liveTimers B)" and g: "\<And>f. id_file (g f) = id_file f"
    for t g
  proof -
    from m tids have "timerFileId t \<noteq> x" by auto
    with others [OF m] show ?thesis using g by (rule timerAgrees_map_other)
  qed
  show ?thesis
  proof (cases "?p1 \<ge> 100")
    case True
    have "distinct (map id_file (map ?toProcessing (files s)))"
      using fs(1) by (simp add: map_id_file_preserved del: map_map)
    moreover have "list_all (recordOk ar) (map ?toProcessing (files s))"
      using fs(2) zero by (auto simp: list_all_iff recordOk_def inRange_def)
    ultimately show ?thesis
      using True tids others' [of _ "\<lambda>f. f\<lparr> status := Processing, progress := 0 \<rparr>"]
      by (simp add: uploadInv_def uploadTick_def Let_def ts upd liveTimers_append list_all_iff
            timerAgrees_simps del: map_map; blast)
  next
    case False
    have "distinct (map id_file (map ?store (files s)))"
      using fs(1) by (simp add: map_id_file_preserved del: map_map)
    moreover have "list_all (recordOk ar) (map ?store (files s))"
      using fs(2) False p p1 by (auto simp: list_all_iff recordOk_def inRange_def)
    moreover have "timerAgrees ar (map ?store (files s)) (UploadInterval x ?p1)"
      using mine p p1 False by (intro timerAgrees_store) simp_all
    ultimately show ?thesis
      using False tids others' [of _ "\<lambda>f. f\<lparr> progress := ?p1 \<rparr>"]
      by (simp add: uploadInv_def uploadTick_def Let_def ts upd liveTimers_append list_all_iff
            del: map_map; blast)
  qed
qed

lemma uploadInv_handOff:
  assumes inv: "uploadInv ar s"
    and k: "k < length (timers s)" and t: "timers s ! k = Some (HandOffTimeout x)"
  shows "uploadInv ar (handOff k x s)"
proof -
  from running_timer [OF k t] obtain A B where ts: "timers s = A @ Some (HandOffTimeout x) # B"
    and upd0: "\<And>v. (timers s)[k := v] = A @ v # B"
    by blast
  note upd = upd0 [unfolded ts]
  from inv show ?thesis
    by (simp add: uploadInv_def handOff_def ts upd liveTimers_append timerAgrees_simps)
qed

lemma recordOk_processingStep:
  assumes ie: "ieee ar" and rd: "isDouble ar r" and r: "0 \<le> r" and r1: "r < 1"
    and ok: "recordOk ar f"
  shows "recordOk ar (processingStep ar x r f)"
proof -
  from ok have p: "isDouble ar (progress f)" "0 \<le> progress f" "progress f \<le> 100"
    and e: "status f \<noteq> Error"
    by (simp_all add: recordOk_def inRange_def)
  from ieee_processing_sum [OF ie rd r r1 p]
  have "isDouble ar (fadd ar (progress f) (fmul ar r 15))"
    and "progress f \<le> fadd ar (progress f) (fmul ar r 15)" by simp_all
  with p e ieee_constants [OF ie] show ?thesis
    by (auto simp: recordOk_def inRange_def processingStep_def Let_def)
qed

lemma uploadInv_processingTick:
  assumes ie: "ieee ar" and inv: "uploadInv ar s"
    and rd: "isDouble ar r" and r: "0 \<le> r" and r1: "r < 1"
    and k: "k < length (timers s)" and t: "timers s ! k = Some (ProcessingInterval x)"
  shows "uploadInv ar (processingTick ar k x r s)"
proof -
  from running_timer [OF k t] obtain A B where ts: "timers s = A @ Some (ProcessingInterval x) # B"
    and upd0: "\<And>v. (timers s)[k := v] = A @ v # B"
    by blast
  note upd = upd0 [unfolded ts]
  from inv have fs: "distinct (map id_file (files s))" "list_all (recordOk ar) (files s)"
    and tids: "distinct (map timerFileId (liveTimers A) @ x # map timerFileId (liveTimers B))"
    and others: "\<And>t. t \<in> set (liveTimers A) \<union> set (liveTimers B) \<Longrightarrow> timerAgrees ar (files s) t"
    by (auto simp: uploadInv_def ts liveTimers_append list_all_iff)
  have f1: "distinct (map id_file (map (processingStep ar x r) (files s)))"
    using fs(1) by (simp add: map_id_file_preserved id_file_processingStep del: map_map)
  have f2: "list_all (recordOk ar) (map (processingStep ar x r) (files s))"
    using fs(2) recordOk_processingStep [OF ie rd r r1] by (simp add: list_all_iff)
  note keep = timerAgrees_processingStep
  show ?thesis
    using f1 f2 tids others keep
    by (simp add: uploadInv_def processingTick_def ts upd liveTimers_append list_all_iff
          timerAgrees_simps del: map_map; blast)
qed

lemma uploadInv_tick:
  "ieee ar \<Longrightarrow> uploadInv ar s \<Longrightarrow> isDouble ar r \<Longrightarrow> 0 \<le> r \<Longrightarrow> r < 1 \<Longrightarrow> uploadInv ar (tick ar k r s)"
  by (auto simp: tick_def uploadInv_uploadTick uploadInv_handOff uploadInv_processingTick
        split: option.splits Timer.splits)

lemma reachableUpload_inv:
  assumes ie: "ieee ar" and reach: "reachableUpload ar s"
  shows "uploadInv ar s"
  using reach
proof (induction rule: reachableUpload.induct)
  case start
  show ?case by (rule uploadInv_initial)
next
  case (next_event s e)
  with ie show ?case
    by (cases e) (simp_all add: uploadInv_handleFileUpload uploadInv_tick uploadInv_removeFile)
qed


lemma same_record:
  "distinct (map id_file fs) \<Longrightarrow> f \<in> set fs \<Longrightarrow> f' \<in> set fs \<Longrightarrow> id_file f' = id_file f \<Longrightarrow> f' = f"
  by (auto simp: distinct_map inj_on_def)

lemma mapped_record:
  assumes "distinct (map id_file fs)" and "\<And>h. id_file (g h) = id_file h"
    and "f \<in> set fs" and "f' \<in> set (map g fs)" and "id_file f' = id_file f"
  shows "f' = g f"
proof -
  from assms(4) obtain h where h: "h \<in> set fs" "f' = g h" by auto
  with assms(2,5) have "id_file h = id_file f" by simp
  with assms(1,3) h(1) have "h = f" by (intro same_record)
  with h(2) show ?thesis by simp
qed

lemma lifecycleStep_refl: "inRange f \<Longrightarrow> lifecycleStep f f"
  by (simp add: lifecycleStep_def inRange_def)

lemma uploadInv_record:
  "uploadInv ar s \<Longrightarrow> f \<in> set (files s) \<Longrightarrow> inRange f"
  by (simp add: uploadInv_def list_all_iff recordOk_def)

lemma uploadInv_recordOk:
  "uploadInv ar s \<Longrightarrow> f \<in> set (files s) \<Longrightarrow> recordOk ar f"
  by (simp add: uploadInv_def list_all_iff)

lemma uploadInv_timer:
  "uploadInv ar s \<Longrightarrow> k < length (timers s) \<Longrightarrow> timers s ! k = Some t \<Longrightarrow> timerAgrees ar (files s) t"
  by (metis uploadInv_def list_all_iff nth_mem set_liveTimers)

lemma lifecycle_uploadTick:
  assumes ie: "ieee ar" and inv: "uploadInv ar s"
    and rd: "isDouble ar r" and r: "0 \<le> r" and r1: "r < 1"
    and k: "k < length (timers s)" and t: "timers s ! k = Some (UploadInterval x p)"
    and f: "f \<in> set (files s)" and f': "f' \<in> set (files (uploadTick ar k x p r s))"
    and same: "id_file f' = id_file f"
  shows "lifecycleStep f f'"
proof -
  let ?p1 = "fadd ar p (fmul ar r 20)"
  have d: "distinct (map id_file (files s))" using inv by (simp add: uploadInv_def)
  have range: "0 \<le> progress f" "progress f \<le> 100"
    using uploadInv_record [OF inv f] by (simp_all add: inRange_def)
  from uploadInv_timer [OF inv k t] f
  have p: "isDouble ar p" "0 \<le> p" "p \<le> 100"
    and agree: "id_file f = x \<Longrightarrow> status f = Uploading \<and> progress f = p"
    by (simp_all add: timerAgrees_simps)
  from ieee_upload_sum [OF ie rd r r1 p] have grows: "p \<le> ?p1" by simp
  show ?thesis
  proof (cases "?p1 \<ge> 100")
    case True
    let ?g = "\<lambda>f. if id_file f = x then f\<lparr> status := Processing, progress := 0 \<rparr> else f"
    from f' True have "f' \<in> set (map ?g (files s))" by (simp add: uploadTick_def Let_def)
    with d f same have "f' = ?g f" by (intro mapped_record) simp_all
    moreover have "0 < p"
    proof (rule ccontr)
      assume "\<not> 0 < p"
      with p(2) have "p = 0" by simp
      with ieee_sum_from_zero [OF ie rd r r1] True show False by simp
    qed
    ultimately show ?thesis using range agree by (auto simp: lifecycleStep_def)
  next
    case False
    let ?g = "\<lambda>f. if id_file f = x then f\<lparr> progress := ?p1 \<rparr> else f"
    from f' False have "f' \<in> set (map ?g (files s))" by (simp add: uploadTick_def Let_def)
    with d f same have "f' = ?g f" by (intro mapped_record) simp_all
    with range agree grows p False show ?thesis by (auto simp: lifecycleStep_def)
  qed
qed

lemma lifecycle_processingTick:
  assumes ie: "ieee ar" and inv: "uploadInv ar s"
    and rd: "isDouble ar r" and r: "0 \<le> r" and r1: "r < 1"
    and f: "f \<in> set (files s)" and f': "f' \<in> set (files (processingTick ar k x r s))"
    and same: "id_file f' = id_file f"
  shows "lifecycleStep f f'"
proof -
  have d: "distinct (map id_file (files s))" using inv by (simp add: uploadInv_def)
  from uploadInv_recordOk [OF inv f]
  have p: "isDouble ar (progress f)" "0 \<le> progress f" "progress f \<le> 100"
    by (simp_all add: recordOk_def inRange_def)
  from ieee_processing_sum [OF ie rd r r1 p]
  have grows: "progress f \<le> fadd ar (progress f) (fmul ar r 15)" by simp
  from f' have "f' \<in> set (map (processingStep ar x r) (files s))" by (simp add: processingTick_def)
  with d f same have "f' = processingStep ar x r f"
    by (intro mapped_record) (simp_all add: id_file_processingStep)
  with p grows show ?thesis by (auto simp: lifecycleStep_def processingStep_def Let_def)
qed

lemma lifecycle_tick:
  assumes ie: "ieee ar" and inv: "uploadInv ar s"
    and rd: "isDouble ar r" and r: "0 \<le> r" and r1: "r < 1"
    and f: "f \<in> set (files s)" and f': "f' \<in> set (files (tick ar k r s))"
    and same: "id_file f' = id_file f"
  shows "lifecycleStep f f'"
proof -
  have d: "distinct (map id_file (files s))" using inv by (simp add: uploadInv_def)
  note refl = lifecycleStep_refl [OF uploadInv_record [OF inv f]]
  show ?thesis
  proof (cases "k < length (timers s)")
    case False
    with f' have "f' \<in> set (files s)" by (simp add: tick_def)
    with d f same have "f' = f" by (intro same_record)
    with refl show ?thesis by simp
  next
    case True
    show ?thesis
    proof (cases "timers s ! k")
      case None
      with True f' have "f' \<in> set (files s)" by (simp add: tick_def)
      with d f same have "f' = f" by (intro same_record)
      with refl show ?thesis by simp
    next
      case (Some t)
      show ?thesis
      proof (cases t)
        case (UploadInterval x p)
        with Some True f' have "f' \<in> set (files (uploadTick ar k x p r s))" by (simp add: tick_def)
        with ie inv rd r r1 True Some UploadInterval f same show ?thesis
          by (intro lifecycle_uploadTick [where k = k and x = x and p = p]) simp_all
      next
        case (HandOffTimeout x)
        with Some True f' have "f' \<in> set (files s)" by (simp add: tick_def handOff_def)
        with d f same have "f' = f" by (intro same_record)
        with refl show ?thesis by simp
      next
        case (ProcessingInterval x)
        with Some True f' have "f' \<in> set (files (processingTick ar k x r s))" by (simp add: tick_def)
        with ie inv rd r r1 f same show ?thesis by (intro lifecycle_processingTick)
      qed
    qed
  qed
qed

lemma lifecycle_handleFileUpload:
  assumes inv: "uploadInv ar s" and adm: "admissible ar (FilesSelected u now) s"
    and f: "f \<in> set (files s)" and f': "f' \<in> set (files (handleFileUpload u now s))"
    and same: "id_file f' = id_file f"
  shows "lifecycleStep f f'"
proof -
  have d: "distinct (map id_file (files s))" using inv by (simp add: uploadInv_def)
  have "f' \<in> set (files s)"
  proof (cases u)
    case None
    with f' show ?thesis by (simp add: handleFileUpload_def)
  next
    case (Some ds)
    with adm have "id_file f \<notin> set (map fst ds)" using f by (auto simp: freshIds_def)
    with f' same Some show ?thesis by (force simp: handleFileUpload_Some newFile_def)
  qed
  with d f same have "f' = f" by (intro same_record)
  with lifecycleStep_refl [OF uploadInv_record [OF inv f]] show ?thesis by simp
qed

lemma lifecycle_removeFile:
  assumes inv: "uploadInv ar s"
    and f: "f \<in> set (files s)" and f': "f' \<in> set (files (removeFile x s))"
    and same: "id_file f' = id_file f"
  shows "lifecycleStep f f'"
proof -
  have d: "distinct (map id_file (files s))" using inv by (simp add: uploadInv_def)
  from f' have "f' \<in> set (files s)" by (simp add: removeFile_def)
  with d f same have "f' = f" by (intro same_record)
  with lifecycleStep_refl [OF uploadInv_record [OF inv f]] show ?thesis by simp
qed

lemma oneFileSelected_eq:
  "oneFileSelected =
     \<lparr> files = [newFile 5 (''k3j9x0q2a'', ''notes.pdf'', 2000000)],
       timers = [Some (UploadInterval ''k3j9x0q2a'' 0)] \<rparr>"
  by (simp add: oneFileSelected_def handleFileUpload_Some initialUpload_def)

lemma twoFilesSelected_eq:
  "twoFilesSelected =
     \<lparr> files = [newFile 5 (''k3j9x0q2a'', ''notes.pdf'', 2000000),
                newFile 5 (''p7m1w4z8c'', ''plan.md'', 1024)],
       timers = [Some (UploadInterval ''k3j9x0q2a'' 0), Some (UploadInterval ''p7m1w4z8c'' 0)] \<rparr>"
  by (simp add: twoFilesSelected_def handleFileUpload_Some initialUpload_def)

lemma reachableUpload_oneFileSelected: "reachableUpload ar oneFileSelected"
proof -
  have "admissible ar (FilesSelected (Some [(''k3j9x0q2a'', ''notes.pdf'', 2000000)]) 5) initialUpload"
    by (simp add: freshIds_def initialUpload_def)
  from reachableUpload.next_event [OF reachableUpload.start this]
  show ?thesis by (simp add: oneFileSelected_def)
qed

lemma reachableUpload_tick:
  "reachableUpload ar s \<Longrightarrow> isDouble ar r \<Longrightarrow> 0 \<le> r \<Longrightarrow> r < 1 \<Longrightarrow>
     reachableUpload ar (tick ar k r s)"
  using reachableUpload.next_event [of ar s "TimerFires k r"] by simp

lemma reachableUpload_removeFile: "reachableUpload ar s \<Longrightarrow> reachableUpload ar (removeFile x s)"
  using reachableUpload.next_event [of ar s "RemoveClicked x"] by simp

lemma id_file_tick: "map id_file (files (tick ar k r s)) = map id_file (files s)"
  by (auto simp: tick_def uploadTick_def handOff_def processingTick_def Let_def
        id_file_processingStep comp_def split: option.splits Timer.splits)

lemma id_file_ticks:
  "map id_file (files (fold (\<lambda>(k, r). tick ar k r) ticks s)) = map id_file (files s)"
  by (induction ticks arbitrary: s) (auto simp: id_file_tick)

lemma map_untouched: "\<forall>f\<in>set fs. g f = f \<Longrightarrow> map g fs = fs"
  by (induction fs) simp_all

lemma tick_of_removed:
  assumes "k < length (timers s)" and "timers s ! k = Some t" and "timerFileId t = x"
  shows "files (tick ar k r (removeFile x s)) = files (removeFile x s)"
  using assms
  by (cases t)
     (auto simp: tick_def removeFile_def uploadTick_def handOff_def processingTick_def Let_def
        processingStep_def intro!: map_untouched)

lemma list_ex_processingDone_filter:
  "y \<noteq> x \<Longrightarrow> list_ex (processingDone ar y r) (filter (\<lambda>f. id_file f \<noteq> x) fs)
                 = list_ex (processingDone ar y r) fs"
  by (auto simp: list_ex_iff processingDone_def)

lemma filter_mapped:
  "(\<And>f. id_file (g f) = id_file f) \<Longrightarrow>
     filter (\<lambda>f. id_file f \<noteq> x) (map g fs) = map g (filter (\<lambda>f. id_file f \<noteq> x) fs)"
  by (induction fs) simp_all

lemma tick_of_other:
  assumes "k < length (timers s)" and "timers s ! k = Some t" and "timerFileId t \<noteq> x"
  shows "tick ar k r (removeFile x s) = removeFile x (tick ar k r s)"
proof (cases t)
  case (UploadInterval y p)
  have "filter (\<lambda>f. id_file f \<noteq> x) (map (\<lambda>f. if id_file f = y then g f else f) (files s)) =
        map (\<lambda>f. if id_file f = y then g f else f) (filter (\<lambda>f. id_file f \<noteq> x) (files s))"
    if "\<And>f. id_file (g f) = id_file f" for g :: "UploadedFile \<Rightarrow> UploadedFile"
    using that by (intro filter_mapped) simp
  from this [of "\<lambda>f. f\<lparr> status := Processing, progress := 0 \<rparr>"]
       this [of "\<lambda>f. f\<lparr> progress := fadd ar p (fmul ar r 20) \<rparr>"]
  show ?thesis
    using assms UploadInterval
    by (simp add: tick_def removeFile_def uploadTick_def Let_def)
next
  case (HandOffTimeout y)
  with assms show ?thesis by (simp add: tick_def removeFile_def handOff_def)
next
  case (ProcessingInterval y)
  have "filter (\<lambda>f. id_file f \<noteq> x) (map (processingStep ar y r) (files s)) =
        map (processingStep ar y r) (filter (\<lambda>f. id_file f \<noteq> x) (files s))"
    by (intro filter_mapped) (simp add: id_file_processingStep)
  with assms ProcessingInterval show ?thesis
    by (simp add: tick_def removeFile_def processingTick_def list_ex_processingDone_filter)
qed

subsection \<open>Progress of a record\<close>

text \<open>
  One event: a record that is still in the registry afterwards has made one step of its
  life.
\<close>

lemma record_step:
  assumes ie: "ieee ar" and reach: "reachableUpload ar s" and adm: "admissible ar e s"
    and f: "f \<in> set (files s)" and f': "f' \<in> set (files (uploadStep ar e s))"
    and same: "id_file f' = id_file f"
  shows "lifecycleStep f f'"
proof -
  from ie reach have inv: "uploadInv ar s" by (rule reachableUpload_inv)
  show ?thesis
  proof (cases e)
    case (FilesSelected u now)
    with inv adm f f' same show ?thesis by (auto intro: lifecycle_handleFileUpload)
  next
    case (TimerFires k r)
    with adm have "isDouble ar r" "0 \<le> r" "r < 1" by simp_all
    moreover from TimerFires f' have "f' \<in> set (files (tick ar k r s))" by simp
    ultimately show ?thesis using ie inv f same by (intro lifecycle_tick [where k = k and r = r])
  next
    case (RemoveClicked x)
    with inv adm f f' same show ?thesis by (auto intro: lifecycle_removeFile)
  qed
qed


text \<open>Along a run: the values of a record that stays in the registry.\<close>

lemma filter_own_id:
  "distinct (map id_file fs) \<Longrightarrow> f \<in> set fs \<Longrightarrow> filter (\<lambda>g. id_file g = id_file f) fs = [f]"
proof (induction fs)
  case Nil
  then show ?case by simp
next
  case (Cons a fs)
  show ?case
  proof (cases "a = f")
    case True
    from Cons.prems(1) True have "id_file f \<notin> id_file ` set fs" by simp
    then have "filter (\<lambda>g. id_file g = id_file f) fs = []"
      unfolding filter_empty_conv by (metis imageI)
    with True show ?thesis by simp
  next
    case False
    with Cons.prems have "f \<in> set fs" and "id_file a \<noteq> id_file f" by auto
    with Cons show ?thesis by simp
  qed
qed

lemma recordOf_present:
  assumes "uploadInv ar s" and "x \<in> set (map id_file (files s))"
  shows "\<exists>f. recordOf x s = [f] \<and> f \<in> set (files s) \<and> id_file f = x"
proof -
  from assms(2) obtain f where f: "f \<in> set (files s)" "id_file f = x" by auto
  from assms(1) have "distinct (map id_file (files s))" by (simp add: uploadInv_def)
  from filter_own_id [OF this f(1)] f show ?thesis by (auto simp: recordOf_def)
qed

lemma history_simps:
  "history ar x [] s = recordOf x s"
  "history ar x (e # es) s = recordOf x s @ history ar x es (uploadStep ar e s)"
  by (simp_all add: history_def)

lemma history_of_run:
  assumes "reachableUpload ar s" and "admissibleRun ar es s"
    and "list_all (\<lambda>s'. x \<in> set (map id_file (files s'))) (runFrom ar es s)"
    and ie: "ieee ar"
  shows "list_all inRange (history ar x es s) \<and> successively lifecycleStep (history ar x es s)
         \<and> (\<exists>f rest. recordOf x s = [f] \<and> history ar x es s = f # rest)"
  using assms
proof (induction es arbitrary: s)
  case Nil
  from ie Nil.prems(1) have inv: "uploadInv ar s" by (rule reachableUpload_inv)
  from Nil.prems(3) have "x \<in> set (map id_file (files s))" by simp
  from recordOf_present [OF inv this] obtain f
    where f: "recordOf x s = [f]" "f \<in> set (files s)" by blast
  with uploadInv_record [OF inv f(2)] show ?case by (simp add: history_simps)
next
  case (Cons e es)
  let ?s' = "uploadStep ar e s"
  from ie Cons.prems(1) have inv: "uploadInv ar s" by (rule reachableUpload_inv)
  from Cons.prems(2) have adm: "admissible ar e s" and run: "admissibleRun ar es ?s'" by simp_all
  from Cons.prems(3) have here: "x \<in> set (map id_file (files s))"
    and later: "list_all (\<lambda>s'. x \<in> set (map id_file (files s'))) (runFrom ar es ?s')" by simp_all
  have reach': "reachableUpload ar ?s'" using Cons.prems(1) adm by (rule reachableUpload.next_event)
  from recordOf_present [OF inv here] obtain f
    where f: "recordOf x s = [f]" "f \<in> set (files s)" "id_file f = x" by blast
  from Cons.IH [OF reach' run later ie] obtain f' rest
    where tl: "list_all inRange (history ar x es ?s')" "successively lifecycleStep (history ar x es ?s')"
      and f': "recordOf x ?s' = [f']" "history ar x es ?s' = f' # rest" by blast
  from f'(1) have in': "f' \<in> set (files ?s')" and id': "id_file f' = x"
    by (auto simp: recordOf_def filter_eq_Cons_iff)
  have "lifecycleStep f f'"
    using ie Cons.prems(1) adm f(2) in' by (rule record_step) (simp add: id' f(3))
  with tl f f' uploadInv_record [OF inv f(2)] show ?case
    by (simp add: history_simps)
qed

lemma no_reset_after_uploading:
  "successively lifecycleStep (f # h) \<Longrightarrow> inRange f \<Longrightarrow> status f \<noteq> Uploading \<Longrightarrow>
     resets (f # h) = 0"
proof (induction h arbitrary: f)
  case Nil
  show ?case by simp
next
  case (Cons g h)
  from Cons.prems have step: "lifecycleStep f g" and rest: "successively lifecycleStep (g # h)"
    by simp_all
  from step Cons.prems(2,3) have "\<not> progress g < progress f" "status g \<noteq> Uploading" "inRange g"
    by (auto simp: lifecycleStep_def inRange_def)
  with Cons.IH [OF rest] show ?case by simp
qed

lemma resets_at_most_once:
  "successively lifecycleStep (f # h) \<Longrightarrow> inRange f \<Longrightarrow> resets (f # h) \<le> 1"
proof (induction h arbitrary: f)
  case Nil
  show ?case by simp
next
  case (Cons g h)
  from Cons.prems have step: "lifecycleStep f g" and rest: "successively lifecycleStep (g # h)"
    by simp_all
  from step have g: "inRange g" by (simp add: lifecycleStep_def inRange_def)
  show ?case
  proof (cases "progress g < progress f")
    case True
    with step Cons.prems(2) have "status g \<noteq> Uploading"
      by (auto simp: lifecycleStep_def inRange_def)
    from no_reset_after_uploading [OF rest g this] True show ?thesis by simp
  next
    case False
    with Cons.IH [OF rest g] show ?thesis by simp
  qed
qed

lemma resets_exactly_once:
  "successively lifecycleStep (f # h) \<Longrightarrow> inRange f \<Longrightarrow> status f = Uploading \<Longrightarrow>
     status (last (f # h)) \<noteq> Uploading \<Longrightarrow> resets (f # h) = 1"
proof (induction h arbitrary: f)
  case Nil
  then show ?case by simp
next
  case (Cons g h)
  from Cons.prems have step: "lifecycleStep f g" and rest: "successively lifecycleStep (g # h)"
    by simp_all
  from step have g: "inRange g" by (simp add: lifecycleStep_def inRange_def)
  show ?case
  proof (cases "status g = Uploading")
    case True
    with step Cons.prems(3) have "\<not> progress g < progress f" by (auto simp: lifecycleStep_def)
    moreover from Cons.prems(4) have "status (last (g # h)) \<noteq> Uploading" by simp
    ultimately show ?thesis using Cons.IH [OF rest g True] by simp
  next
    case False
    with step Cons.prems(3) have "progress g < progress f" by (auto simp: lifecycleStep_def)
    with no_reset_after_uploading [OF rest g False] show ?thesis by simp
  qed
qed

text \<open>
  C7.  Take a reachable state, a run of events the environment can provide, and a record
  that is in the registry all along the run.  Every value of its stored progress lies
  within 0 and 100.  From each value to the next the record makes one step of its life:
  within a phase the progress does not decrease, and the phase changes only from uploading
  to processing, where the progress is reset to 0, or from processing to ready, where it
  becomes 100.  The progress drops at most once along the run, and exactly once when the
  run starts in the uploading phase and ends beyond it.  This holds for every arithmetic
  with the stated properties of the doubles, whatever it rounds to.
\<close>

theorem progress_monotone_reset_once_bounded:
  assumes "ieee ar" and "reachableUpload ar s" and "admissibleRun ar es s"
    and "list_all (\<lambda>s'. x \<in> set (map id_file (files s'))) (runFrom ar es s)"
  shows "list_all inRange (history ar x es s)
         \<and> successively lifecycleStep (history ar x es s)
         \<and> resets (history ar x es s) \<le> 1
         \<and> (status (hd (history ar x es s)) = Uploading
              \<and> status (last (history ar x es s)) \<noteq> Uploading \<longrightarrow> resets (history ar x es s) = 1)"
proof -
  from history_of_run [OF assms(2-4) assms(1)] obtain f rest
    where r: "list_all inRange (history ar x es s)" and l: "successively lifecycleStep (history ar x es s)"
      and h: "history ar x es s = f # rest" by blast
  from r h have f: "inRange f" by simp
  from resets_at_most_once [OF l [unfolded h] f]
       resets_exactly_once [OF l [unfolded h] f]
       r l
  show ?thesis by (auto simp: h)
qed

text \<open>
  The scenario of a file of 2,000,000 bytes: uploading from progress 0, processing from
  progress 0, ready at progress 100.
\<close>

lemma eighths_simps:
  "fadd eighths a b = a + b"
  "fmul eighths a b = a * b"
  "isDouble eighths x \<longleftrightarrow> 8 * x \<in> \<int> \<and> \<bar>x\<bar> \<le> 1024"
  by (simp_all add: eighths_def)

lemma ieee_eighths: "ieee eighths"
proof -
  have prod: "8 * (r * c) \<in> \<int>" if "8 * r \<in> \<int>" and "c \<in> \<int>" for r c :: real
  proof -
    have "8 * (r * c) = (8 * r) * c" by simp
    with that show ?thesis by (simp only: Ints_mult)
  qed
  have sum: "8 * (a + b) \<in> \<int>" if "8 * a \<in> \<int>" and "8 * b \<in> \<int>" for a b :: real
  proof -
    have "8 * (a + b) = 8 * a + 8 * b" by simp
    with that show ?thesis by (simp only: Ints_add)
  qed
  have scaled: "r * c \<le> c" if "r < 1" and "0 \<le> c" for r c :: real
    using that mult_left_le [of r c] by (simp add: mult.commute)
  have m: "8 * (r * 20) \<in> \<int> \<and> \<bar>r * 20\<bar> \<le> 1024 \<and> 0 \<le> r * 20 \<and> r * 20 \<le> 20
         \<and> 8 * (r * 15) \<in> \<int> \<and> \<bar>r * 15\<bar> \<le> 1024 \<and> 0 \<le> r * 15 \<and> r * 15 \<le> 15"
    if "8 * r \<in> \<int>" and "0 \<le> r" and "r < 1" for r :: real
    using prod [OF that(1), of 20] prod [OF that(1), of 15] that(2,3) by simp
  have a: "8 * (a + b) \<in> \<int> \<and> \<bar>a + b\<bar> \<le> 1024 \<and> a \<le> a + b"
    if "8 * a \<in> \<int>" and "8 * b \<in> \<int>" and "0 \<le> a" and "a \<le> 100" and "0 \<le> b" and "b \<le> 20" for a b :: real
    using sum [OF that(1,2)] that(3-6) by simp
  show ?thesis
    unfolding ieee_def eighths_simps
    using m a by auto
qed

lemma upload_continue_eval:
  "id_file f = x \<Longrightarrow> fadd ar p (fmul ar r 20) < 100 \<Longrightarrow>
     tick ar 0 r \<lparr> files = [f], timers = [Some (UploadInterval x p)] \<rparr> =
       \<lparr> files = [f\<lparr> progress := fadd ar p (fmul ar r 20) \<rparr>],
         timers = [Some (UploadInterval x (fadd ar p (fmul ar r 20)))] \<rparr>"
  by (simp add: tick_def uploadTick_def Let_def)

lemma upload_done_eval:
  "id_file f = x \<Longrightarrow> 100 \<le> fadd ar p (fmul ar r 20) \<Longrightarrow>
     tick ar 0 r \<lparr> files = [f], timers = [Some (UploadInterval x p)] \<rparr> =
       \<lparr> files = [f\<lparr> status := Processing, progress := 0 \<rparr>],
         timers = [None, Some (HandOffTimeout x)] \<rparr>"
  by (simp add: tick_def uploadTick_def Let_def)

lemma handOff_eval:
  "tick ar (Suc 0) r \<lparr> files = fs, timers = [None, Some (HandOffTimeout x)] \<rparr> =
     \<lparr> files = fs, timers = [None, None, Some (ProcessingInterval x)] \<rparr>"
  by (simp add: tick_def handOff_def)

lemma processing_continue_eval:
  "id_file f = x \<Longrightarrow> status f = Processing \<Longrightarrow> fadd ar (progress f) (fmul ar r 15) < 100 \<Longrightarrow>
     tick ar 2 r \<lparr> files = [f], timers = [None, None, Some (ProcessingInterval x)] \<rparr> =
       \<lparr> files = [f\<lparr> progress := fadd ar (progress f) (fmul ar r 15) \<rparr>],
         timers = [None, None, Some (ProcessingInterval x)] \<rparr>"
  by (simp add: tick_def processingTick_def processingStep_def processingDone_def Let_def)

lemma processing_done_eval:
  "id_file f = x \<Longrightarrow> status f = Processing \<Longrightarrow> 100 \<le> fadd ar (progress f) (fmul ar r 15) \<Longrightarrow>
     tick ar 2 r \<lparr> files = [f], timers = [None, None, Some (ProcessingInterval x)] \<rparr> =
       \<lparr> files = [f\<lparr> status := Ready, progress := 100 \<rparr>], timers = [None, None, None] \<rparr>"
  by (simp add: tick_def processingTick_def processingStep_def processingDone_def Let_def)

lemma wholeLife_states:
  "map files (runFrom eighths wholeLife oneFileSelected) =
     map (\<lambda>(st, p). [(newFile 5 (''k3j9x0q2a'', ''notes.pdf'', 2000000))\<lparr> status := st, progress := p \<rparr>])
       [(Uploading, 0), (Uploading, 35/2), (Uploading, 35), (Uploading, 105/2), (Uploading, 70),
        (Uploading, 175/2), (Processing, 0), (Processing, 0), (Processing, 105/8),
        (Processing, 105/4), (Processing, 315/8), (Processing, 105/2), (Processing, 525/8),
        (Processing, 315/4), (Processing, 735/8), (Ready, 100)]"
  by (simp add: wholeLife_def oneFileSelected_eq newFile_def eighths_simps upload_continue_eval
        upload_done_eval handOff_eval processing_continue_eval processing_done_eval)

theorem progress_monotone_reset_once_bounded_witness:
  "ieee eighths
   \<and> reachableUpload eighths oneFileSelected
   \<and> admissibleRun eighths wholeLife oneFileSelected
   \<and> list_all (\<lambda>s'. ''k3j9x0q2a'' \<in> set (map id_file (files s'))) (runFrom eighths wholeLife oneFileSelected)
   \<and> map status (history eighths ''k3j9x0q2a'' wholeLife oneFileSelected) =
       [Uploading, Uploading, Uploading, Uploading, Uploading, Uploading,
        Processing, Processing, Processing, Processing, Processing, Processing, Processing,
        Processing, Processing, Ready]
   \<and> map progress (history eighths ''k3j9x0q2a'' wholeLife oneFileSelected) =
       [0, 35/2, 35, 105/2, 70, 175/2, 0, 0, 105/8, 105/4, 315/8, 105/2, 525/8, 315/4, 735/8, 100]
   \<and> resets (history eighths ''k3j9x0q2a'' wholeLife oneFileSelected) = 1"
proof -
  have a: "admissibleRun eighths wholeLife oneFileSelected"
    by (simp add: wholeLife_def eighths_simps)
  have "list_all (\<lambda>fs. ''k3j9x0q2a'' \<in> set (map id_file fs))
          (map files (runFrom eighths wholeLife oneFileSelected))"
    unfolding wholeLife_states by (simp add: newFile_def)
  then have p: "list_all (\<lambda>s'. ''k3j9x0q2a'' \<in> set (map id_file (files s')))
                  (runFrom eighths wholeLife oneFileSelected)"
    by (simp add: list_all_iff)
  have h: "history eighths ''k3j9x0q2a'' wholeLife oneFileSelected =
             concat (map (filter (\<lambda>f. id_file f = ''k3j9x0q2a''))
                       (map files (runFrom eighths wholeLife oneFileSelected)))"
    by (simp add: history_def recordOf_def [abs_def] comp_def)
  have st: "map status (history eighths ''k3j9x0q2a'' wholeLife oneFileSelected) =
       [Uploading, Uploading, Uploading, Uploading, Uploading, Uploading,
        Processing, Processing, Processing, Processing, Processing, Processing, Processing,
        Processing, Processing, Ready]"
    and pr: "map progress (history eighths ''k3j9x0q2a'' wholeLife oneFileSelected) =
       [0, 35/2, 35, 105/2, 70, 175/2, 0, 0, 105/8, 105/4, 315/8, 105/2, 525/8, 315/4, 735/8, 100]"
    unfolding h wholeLife_states by (simp_all add: newFile_def)
  from st have ends: "status (hd (history eighths ''k3j9x0q2a'' wholeLife oneFileSelected)) = Uploading
      \<and> status (last (history eighths ''k3j9x0q2a'' wholeLife oneFileSelected)) \<noteq> Uploading"
    by (cases "history eighths ''k3j9x0q2a'' wholeLife oneFileSelected" rule: rev_cases) auto
  from progress_monotone_reset_once_bounded [OF ieee_eighths reachableUpload_oneFileSelected a p] ends
  have "resets (history eighths ''k3j9x0q2a'' wholeLife oneFileSelected) = 1" by blast
  with ieee_eighths reachableUpload_oneFileSelected a p st pr show ?thesis by simp
qed

subsection \<open>Removal\<close>

text \<open>
  C1 (as the code has it).  \<^verbatim>\<open>removeFile\<close> deletes the record and leaves the timer table
  as it is.  Whatever timers fire afterwards, no record with the removed identifier is in
  the registry again; a tick of a timer of the removed identifier leaves the registry
  unchanged; a tick of a timer of another identifier does what it would have done without
  the removal.
\<close>

theorem removed_record_never_recreated_timers_keep_running:
  "timers (removeFile x s) = timers s
   \<and> x \<notin> set (map id_file (files (fold (\<lambda>(k, r). tick ar k r) ticks (removeFile x s))))
   \<and> (k < length (timers s) \<and> timers s ! k = Some t \<and> timerFileId t = x \<longrightarrow>
        files (tick ar k r (removeFile x s)) = files (removeFile x s))
   \<and> (k < length (timers s) \<and> timers s ! k = Some t \<and> timerFileId t \<noteq> x \<longrightarrow>
        tick ar k r (removeFile x s) = removeFile x (tick ar k r s))"
proof -
  have "timers (removeFile x s) = timers s" by (simp add: removeFile_def)
  moreover have "x \<notin> set (map id_file (files (fold (\<lambda>(k, r). tick ar k r) ticks (removeFile x s))))"
    unfolding id_file_ticks by (auto simp: removeFile_def)
  ultimately show ?thesis
    using tick_of_removed [of k s t x ar r] tick_of_other [of k s t x ar r] by blast
qed

theorem removed_record_never_recreated_timers_keep_running_witness:
  "timers (removeFile ''k3j9x0q2a'' twoFilesSelected) = timers twoFilesSelected
   \<and> timers twoFilesSelected ! 0 = Some (UploadInterval ''k3j9x0q2a'' 0)
   \<and> files (tick eighths 0 (1/2) (removeFile ''k3j9x0q2a'' twoFilesSelected)) =
       files (removeFile ''k3j9x0q2a'' twoFilesSelected)
   \<and> timers twoFilesSelected ! 1 = Some (UploadInterval ''p7m1w4z8c'' 0)
   \<and> tick eighths 1 (1/2) (removeFile ''k3j9x0q2a'' twoFilesSelected) =
       removeFile ''k3j9x0q2a'' (tick eighths 1 (1/2) twoFilesSelected)
   \<and> ''k3j9x0q2a'' \<notin> set (map id_file (files
         (fold (\<lambda>(k, r). tick eighths k r) [(0, 1/2), (1, 1/2), (0, 7/8)]
            (removeFile ''k3j9x0q2a'' twoFilesSelected))))"
proof -
  have t0: "0 < length (timers twoFilesSelected)
            \<and> timers twoFilesSelected ! 0 = Some (UploadInterval ''k3j9x0q2a'' 0)
            \<and> timerFileId (UploadInterval ''k3j9x0q2a'' 0) = ''k3j9x0q2a''"
    and t1: "1 < length (timers twoFilesSelected)
            \<and> timers twoFilesSelected ! 1 = Some (UploadInterval ''p7m1w4z8c'' 0)
            \<and> timerFileId (UploadInterval ''p7m1w4z8c'' 0) \<noteq> ''k3j9x0q2a''"
    by (simp_all add: twoFilesSelected_eq)
  from removed_record_never_recreated_timers_keep_running
         [of "''k3j9x0q2a''" twoFilesSelected eighths "[(0, 1/2), (1, 1/2), (0, 7/8)]"
             0 "UploadInterval ''k3j9x0q2a'' 0" "1/2"]
       removed_record_never_recreated_timers_keep_running
         [of "''k3j9x0q2a''" twoFilesSelected eighths "[(0, 1/2), (1, 1/2), (0, 7/8)]"
             1 "UploadInterval ''p7m1w4z8c'' 0" "1/2"]
       t0 t1
  show ?thesis by simp
qed

text \<open>
  C1 as stated fails: removal does not halt the driver.  After a file is selected and
  removed at once, its upload interval is still running, and its next tick fires and
  advances the local progress.
\<close>

theorem removal_does_not_halt_driver:
  "reachableUpload eighths selectedThenRemoved
   \<and> \<not> driverHalted ''k3j9x0q2a'' selectedThenRemoved
   \<and> timers (tick eighths 0 (1/2) selectedThenRemoved) = [Some (UploadInterval ''k3j9x0q2a'' 10)]"
proof -
  have "reachableUpload eighths selectedThenRemoved"
    unfolding selectedThenRemoved_def
    by (intro reachableUpload_removeFile reachableUpload_oneFileSelected)
  then show ?thesis
    by (simp add: selectedThenRemoved_def oneFileSelected_eq removeFile_def driverHalted_def
          tick_def uploadTick_def Let_def eighths_simps)
qed

subsection \<open>Terminal states\<close>












section \<open>Properties of the document catalog\<close>

text \<open>
  C10.  When the fetch of the catalog fails, by a response that is not ok or by a thrown
  error (an \<^verbatim>\<open>Error\<close> with a message, or another value), the error banner is shown, the
  document list is the one loaded before, which is empty on first load, and the loading
  flag is reset.
\<close>

theorem failed_fetch_shows_banner_keeps_documents:
  assumes "fetchFailed res" and "thrownWithMessage res"
  shows "bannerShown (fetchDocuments res s)
         \<and> documents (fetchDocuments res s) = documents s
         \<and> documents (fetchDocuments res initialDocuments) = []
         \<and> \<not> loading (fetchDocuments res s)"
proof (cases res)
  case (FetchThrew thrown)
  with assms(2) show ?thesis
    by (cases thrown)
       (simp_all add: fetchDocuments_def bannerShown_def truthy_def thrownWithMessage_def
          initialDocuments_def)
next
  case (FetchResponse ok statusText docs)
  with assms(1) show ?thesis
    by (simp add: fetchDocuments_def bannerShown_def truthy_def fetchFailed_def
          initialDocuments_def)
qed

text \<open>
  The scenario of C10, where the first fetch is answered with HTTP 500, and a fetch that
  is rejected with the browser's \<^verbatim>\<open>TypeError\<close>.
\<close>

theorem failed_fetch_shows_banner_keeps_documents_witness:
  "fetchFailed (FetchResponse False ''Internal Server Error'' [])
   \<and> thrownWithMessage (FetchResponse False ''Internal Server Error'' [])
   \<and> bannerShown (fetchDocuments (FetchResponse False ''Internal Server Error'' []) initialDocuments)
   \<and> error_docs (fetchDocuments (FetchResponse False ''Internal Server Error'' []) initialDocuments)
       = Some ''Failed to fetch documents: Internal Server Error''
   \<and> documents (fetchDocuments (FetchResponse False ''Internal Server Error'' []) initialDocuments) = []
   \<and> fetchFailed (FetchThrew (Some ''Failed to fetch''))
   \<and> thrownWithMessage (FetchThrew (Some ''Failed to fetch''))
   \<and> bannerShown (fetchDocuments (FetchThrew (Some ''Failed to fetch'')) initialDocuments)
   \<and> documents (fetchDocuments (FetchThrew (Some ''Failed to fetch'')) initialDocuments) = []"
proof -
  have f: "fetchFailed (FetchResponse False ''Internal Server Error'' [])"
    and t: "thrownWithMessage (FetchResponse False ''Internal Server Error'' [])"
    and f': "fetchFailed (FetchThrew (Some ''Failed to fetch''))"
    and t': "thrownWithMessage (FetchThrew (Some ''Failed to fetch''))"
    by (simp_all add: fetchFailed_def thrownWithMessage_def)
  have e: "error_docs (fetchDocuments (FetchResponse False ''Internal Server Error'' []) initialDocuments)
       = Some ''Failed to fetch documents: Internal Server Error''"
    by (simp add: fetchDocuments_def)
  from failed_fetch_shows_banner_keeps_documents [OF f t, of initialDocuments]
       failed_fetch_shows_banner_keeps_documents [OF f' t', of initialDocuments]
       f t f' t' e
  show ?thesis by blast
qed

text \<open>
  The banner is rendered under \<^verbatim>\<open>error &&\<close>: were an \<^verbatim>\<open>Error\<close> with an empty message
  thrown, the error text would be the empty string and no banner would show.
\<close>

lemma thrown_error_without_message_shows_no_banner:
  "\<not> bannerShown (fetchDocuments (FetchThrew (Some [])) s)"
  by (simp add: fetchDocuments_def bannerShown_def truthy_def)

end
